theory Spec2Isabelle
  imports Complex_Main "HOL-Library.Product_Lexorder" "HOL-Library.Multiset" "HOL-Library.Sublist"
begin

section \<open>Data model\<close>

text \<open>
  The repository is a polling service on a document store. Two service files are
  verified here: the small service of \<^verbatim>\<open>server.js\<close> (users, posts, feed, vote, like) and the
  larger service with interaction tracking (view, vote, like, share handlers, a trending
  endpoint, and a relevance score with one more term). Both share the schemas, the
  engagement score and the trending job. The repository holds two more service texts:
  one repeats the small service, the other is the larger service behind a login, and
  they are not modelled apart.

  Conventions of the embedding:
  \<^item> a JavaScript Number is an \<open>int\<close> where the code only counts (the counters start at 0
    and move by 1), and a \<open>real\<close> where the code computes a score: rounding of doubles is
    not modelled;
  \<^item> a Date is its number of milliseconds since the epoch, an \<open>int\<close>; \<^verbatim>\<open>Date.now()\<close> is the
    parameter \<open>now\<close> of every function that reads the clock;
  \<^item> an identifier of a user is a \<open>string\<close>; the empty string stands for every falsy value
    (\<^verbatim>\<open>undefined\<close>, \<^verbatim>\<open>""\<close>) that the guards \<^verbatim>\<open>!userId\<close> and \<^verbatim>\<open>if (userId)\<close> test;
  \<^item> the \<^verbatim>\<open>_id\<close> of a post is a \<open>nat\<close> (field \<open>pid\<close>);
  \<^item> a collection is the list of its documents in the store's natural order.
\<close>

text \<open>\<^verbatim>\<open>options: [{ text, votes, voters }]\<close> of the post schema.\<close>

record poll_option =
  otext :: string
  votes :: int
  voters :: "string list"

text \<open>The post schema.\<close>

record post =
  pid :: nat
  creatorId :: string
  creatorName :: string
  title :: string
  options :: "poll_option list"
  totalVotes :: int
  likes :: "string list"
  likesCount :: int
  shares :: int
  views :: int
  tags :: "string list"
  createdAt :: int
  engagementScore :: real
  trendingScore :: real

section \<open>Engagement score\<close>

text \<open>
  \<^verbatim>\<open>calculateEngagementScore\<close>, the same function in both services. The larger service
  names the four weights; the small one writes them into the sum.
\<close>

definition calculateEngagementScore :: "int \<Rightarrow> post \<Rightarrow> real" where
  "calculateEngagementScore now post =
     (let ageInHours = real_of_int (now - createdAt post) / (1000 * 60 * 60);
          decayFactor = exp (- ageInHours / 48);
          voteWeight = 1;
          likeWeight = 0.5;
          shareWeight = 2;
          viewWeight = 0.1;
          rawScore =
            (real_of_int (totalVotes post) * voteWeight) +
            (real_of_int (likesCount post) * likeWeight) +
            (real_of_int (shares post) * shareWeight) +
            (real_of_int (views post) * viewWeight)
      in rawScore * decayFactor)"

text \<open>A post with four counters set, used to run the score on concrete values.\<close>

definition example_post :: post where
  "example_post =
     \<lparr>pid = 1, creatorId = ''u1'', creatorName = ''Ann'', title = ''Lunch?'',
      options = [\<lparr>otext = ''yes'', votes = 6, voters = []\<rparr>,
                 \<lparr>otext = ''no'', votes = 4, voters = []\<rparr>],
      totalVotes = 10, likes = [''u2'', ''u3'', ''u4'', ''u5''], likesCount = 4, shares = 3,
      views = 50,
      tags = [''food''], createdAt = 0, engagementScore = 0, trendingScore = 0\<rparr>"

section \<open>Users and the store\<close>

text \<open>\<^verbatim>\<open>type: { enum: ['view', 'vote', 'like', 'share'] }\<close> of an interaction.\<close>

datatype kind = View | Vote | Like | Share

text \<open>An entry of \<^verbatim>\<open>interactions\<close> in the user schema; the field \<^verbatim>\<open>type\<close> is \<open>kind\<close> here.\<close>

record interaction =
  postId :: nat
  kind :: kind
  timestamp :: int

record user =
  userId :: string
  username :: string
  interactions :: "interaction list"
  interests :: "string list"

text \<open>The two collections.\<close>

record db =
  posts :: "post list"
  users :: "user list"

text \<open>
  What a handler sends: \<^verbatim>\<open>res.json({ post })\<close>, \<^verbatim>\<open>res.json({ message, post })\<close>,
  \<^verbatim>\<open>res.json({ message, user })\<close>, \<^verbatim>\<open>res.json({ message })\<close> or
  \<^verbatim>\<open>res.status(n).json({ error })\<close>. An exception thrown inside
  a handler's \<^verbatim>\<open>try\<close> block is answered with status 500.
\<close>

datatype response =
  OkPost post | OkMsg string post | OkUser string user | Ok string | Error nat string

text \<open>\<^verbatim>\<open>Post.findById\<close> and \<^verbatim>\<open>User.findOne({ userId })\<close>: the first document that matches.\<close>

definition findById :: "post list \<Rightarrow> nat \<Rightarrow> post option" where
  "findById ps i = find (\<lambda>p. pid p = i) ps"

definition findOne :: "user list \<Rightarrow> string \<Rightarrow> user option" where
  "findOne us uid = find (\<lambda>u. userId u = uid) us"

text \<open>
  \<^verbatim>\<open>post.save()\<close> and \<^verbatim>\<open>user.save()\<close> write a document back in its place. The store keeps
  \<^verbatim>\<open>_id\<close> and \<^verbatim>\<open>userId\<close> unique, so a document is found by that key.
\<close>

definition save_post :: "post \<Rightarrow> post list \<Rightarrow> post list" where
  "save_post p ps = map (\<lambda>q. if pid q = pid p then p else q) ps"

definition save_user :: "user \<Rightarrow> user list \<Rightarrow> user list" where
  "save_user u us = map (\<lambda>v. if userId v = userId u then u else v) us"

text \<open>
  \<^verbatim>\<open>Post.findByIdAndUpdate(id, { engagementScore, trendingScore })\<close> sets the two score
  fields of the stored document and leaves its other fields.
\<close>

definition findByIdAndUpdate :: "nat \<Rightarrow> real \<Rightarrow> post list \<Rightarrow> post list" where
  "findByIdAndUpdate i score ps =
     map (\<lambda>q. if pid q = i then q\<lparr>engagementScore := score, trendingScore := score\<rparr> else q) ps"

text \<open>
  \<^verbatim>\<open>.sort({ trendingScore: -1, createdAt: -1 })\<close>: descending in both keys, which is
  ascending in the negated pair. Documents with equal keys stay in natural order.
\<close>

definition sort_trending :: "post list \<Rightarrow> post list" where
  "sort_trending ps = sort_key (\<lambda>p. (- trendingScore p, - createdAt p)) ps"

text \<open>
  \<^verbatim>\<open>.limit(n)\<close> of a query: the store reads a limit of 0 as no limit. Limits and skips
  are natural numbers here; negative ones are left out.
\<close>

definition cursor_limit :: "nat \<Rightarrow> 'a list \<Rightarrow> 'a list" where
  "cursor_limit n xs = (if n = 0 then xs else take n xs)"

text \<open>
  \<^verbatim>\<open>parseInt(req.query.x) || d\<close>: the default when the parameter is absent, is not a
  number, or is 0.
\<close>

definition or_default :: "nat option \<Rightarrow> nat \<Rightarrow> nat" where
  "or_default v d = (case v of None \<Rightarrow> d | Some n \<Rightarrow> if n = 0 then d else n)"

record query =
  q_limit :: "nat option"
  q_skip :: "nat option"

section \<open>Personalized feed\<close>

text \<open>\<^verbatim>\<open>$setIntersection\<close> gives the common elements without duplicates; \<^verbatim>\<open>$size\<close> counts them.\<close>

definition setIntersection :: "string list \<Rightarrow> string list \<Rightarrow> string list" where
  "setIntersection xs ys = remdups (filter (\<lambda>x. x \<in> set ys) xs)"

text \<open>The \<^verbatim>\<open>$addFields\<close> stage of the small service: tag overlap times 10, plus the trending score.\<close>

definition relevance_small :: "string list \<Rightarrow> post \<Rightarrow> real" where
  "relevance_small userInterests p =
     real (length (setIntersection (tags p) userInterests)) * 10 + trendingScore p"

text \<open>
  The values that the arithmetic of a pipeline meets here: a number, and a date as its
  milliseconds. The pipeline is sent to the store as it is written, so \<^verbatim>\<open>Date.now()\<close> arrives
  as a number and the field \<^verbatim>\<open>createdAt\<close> is a date.
\<close>

datatype bson = Number real | Date int

text \<open>
  \<^verbatim>\<open>$subtract\<close> of the store takes two numbers, two dates (the difference in milliseconds),
  or a date and a number of milliseconds (the earlier date): to subtract with a date, the
  date must be the first argument. A date subtracted from a number is rejected, and the
  aggregation fails (the wording of the message differs between versions of the store).
  \<^verbatim>\<open>$divide\<close> takes numbers.
\<close>

fun subtract :: "bson \<Rightarrow> bson \<Rightarrow> string + bson" where
  "subtract (Number a) (Number b) = Inr (Number (a - b))"
| "subtract (Date a) (Date b) = Inr (Number (real_of_int (a - b)))"
| "subtract (Date a) (Number b) = Inr (Date (a - \<lfloor>b\<rfloor>))"
| "subtract (Number a) (Date b) = Inl ''cant $subtract a date from a double''"

fun divide_bson :: "bson \<Rightarrow> real \<Rightarrow> string + real" where
  "divide_bson (Number a) b = Inr (a / b)"
| "divide_bson (Date a) b = Inl ''$divide only supports numeric types''"

text \<open>
  The same stage of the larger service, with a third summand:
  \<^verbatim>\<open>{ $divide: [{ $subtract: [Date.now(), '$createdAt'] }, 1000000000] }\<close>.
\<close>

definition relevance :: "int \<Rightarrow> string list \<Rightarrow> post \<Rightarrow> string + real" where
  "relevance now userInterests p =
     (case subtract (Number (real_of_int now)) (Date (createdAt p)) of
        Inl e \<Rightarrow> Inl e
      | Inr diff \<Rightarrow>
          (case divide_bson diff 1000000000 of
             Inl e \<Rightarrow> Inl e
           | Inr bonus \<Rightarrow>
               Inr (real (length (setIntersection (tags p) userInterests)) * 10
                      + trendingScore p + bonus)))"

text \<open>
  A document of the feed: the post, and its \<^verbatim>\<open>relevanceScore\<close> when the pipeline added one.
\<close>

type_synonym feed_doc = "post \<times> real option"

text \<open>
  The stage \<^verbatim>\<open>$addFields\<close> evaluates the expression on every document that reaches it; an
  expression that fails on a document fails the aggregation.
\<close>

fun addFields :: "(post \<Rightarrow> string + real) \<Rightarrow> post list \<Rightarrow> string + (post \<times> real) list" where
  "addFields score [] = Inr []"
| "addFields score (p # ps) =
     (case score p of
        Inl e \<Rightarrow> Inl e
      | Inr r \<Rightarrow> (case addFields score ps of
                    Inl e \<Rightarrow> Inl e
                  | Inr rs \<Rightarrow> Inr ((p, r) # rs)))"

text \<open>
  The stages \<^verbatim>\<open>$match\<close>, \<^verbatim>\<open>$addFields\<close>, \<^verbatim>\<open>$sort\<close>, \<^verbatim>\<open>$skip\<close> and \<^verbatim>\<open>$limit\<close> of \<^verbatim>\<open>Post.aggregate\<close>, over a
  scoring expression. The store rejects a pipeline whose \<^verbatim>\<open>$limit\<close> is 0.
\<close>

definition aggregate :: "(post \<Rightarrow> string + real) \<Rightarrow> nat list \<Rightarrow> nat \<Rightarrow> nat \<Rightarrow> post list
    \<Rightarrow> string + feed_doc list" where
  "aggregate score interactedPostIds skip limit ps =
     (if limit = 0 then Inl ''the limit must be positive''
      else case addFields score (filter (\<lambda>p. pid p \<notin> set interactedPostIds) ps) of
             Inl e \<Rightarrow> Inl e
           | Inr scored \<Rightarrow>
               Inr (map (\<lambda>(p, r). (p, Some r))
                      (take limit (drop skip
                         (sort_key (\<lambda>(p, r). (- r, - createdAt p)) scored)))))"

text \<open>The fallback of both services: \<^verbatim>\<open>Post.find().sort(...).limit(limit).skip(skip)\<close>.\<close>

definition trending_page :: "nat \<Rightarrow> nat \<Rightarrow> post list \<Rightarrow> post list" where
  "trending_page limit skip ps = cursor_limit limit (drop skip (sort_trending ps))"

text \<open>\<^verbatim>\<open>getPersonalizedFeed\<close> of the larger service.\<close>

definition getPersonalizedFeed :: "int \<Rightarrow> db \<Rightarrow> string \<Rightarrow> nat \<Rightarrow> nat \<Rightarrow> string + feed_doc list" where
  "getPersonalizedFeed now d uid limit skip =
     (case findOne (users d) uid of
        None \<Rightarrow> Inr (map (\<lambda>p. (p, None)) (trending_page limit skip (posts d)))
      | Some user \<Rightarrow>
          (let userInterests = interests user;
               interactedPostIds = map postId (interactions user)
           in aggregate (relevance now userInterests) interactedPostIds skip limit (posts d)))"

text \<open>\<^verbatim>\<open>getPersonalizedFeed\<close> of the small service.\<close>

definition getPersonalizedFeed_small :: "db \<Rightarrow> string \<Rightarrow> nat \<Rightarrow> nat \<Rightarrow> string + feed_doc list" where
  "getPersonalizedFeed_small d uid limit skip =
     (case findOne (users d) uid of
        None \<Rightarrow> Inr (map (\<lambda>p. (p, None)) (trending_page limit skip (posts d)))
      | Some user \<Rightarrow>
          (let interacted = map postId (interactions user);
               userInterests = interests user
           in aggregate (\<lambda>p. Inr (relevance_small userInterests p)) interacted skip limit
                (posts d)))"

text \<open>
  The routes \<^verbatim>\<open>GET /api/posts/feed/:userId\<close> and \<^verbatim>\<open>GET /api/posts/trending\<close> of the larger
  service. The trending route reads \<^verbatim>\<open>limit\<close> only.
\<close>

definition feed_endpoint :: "int \<Rightarrow> db \<Rightarrow> string \<Rightarrow> query \<Rightarrow> string + feed_doc list" where
  "feed_endpoint now d uid q =
     getPersonalizedFeed now d uid (or_default (q_limit q) 20) (or_default (q_skip q) 0)"

definition trending_endpoint :: "db \<Rightarrow> query \<Rightarrow> post list" where
  "trending_endpoint d q = cursor_limit (or_default (q_limit q) 20) (sort_trending (posts d))"

section \<open>Trending job\<close>

text \<open>
  \<^verbatim>\<open>updateTrendingScores\<close>: a \<^verbatim>\<open>for\<close> loop over the posts read at the start, with an awaited
  write per post and no \<^verbatim>\<open>try\<close> inside the loop. Whether the store accepts the write to a
  post is the parameter \<open>write_ok\<close>; a rejected write throws, which leaves the loop and
  the job. The clock is read once for each post: \<open>clock i\<close> is the time read when the post
  \<open>i\<close> is scored. The result is the error, if any, and the store as the job left it.
\<close>

fun updateLoop :: "(nat \<Rightarrow> bool) \<Rightarrow> (nat \<Rightarrow> int) \<Rightarrow> post list \<Rightarrow> post list
    \<Rightarrow> string option \<times> post list" where
  "updateLoop write_ok clock [] store = (None, store)"
| "updateLoop write_ok clock (post # rest) store =
     (let score = calculateEngagementScore (clock (pid post)) post
      in if write_ok (pid post)
         then updateLoop write_ok clock rest (findByIdAndUpdate (pid post) score store)
         else (Some ''write failed'', store))"

definition updateTrendingScores :: "(nat \<Rightarrow> bool) \<Rightarrow> (nat \<Rightarrow> int) \<Rightarrow> db \<Rightarrow> string option \<times> db" where
  "updateTrendingScores write_ok clock d =
     (let r = updateLoop write_ok clock (posts d) (posts d)
      in (fst r, d\<lparr>posts := snd r\<rparr>))"

section \<open>Handlers of the larger service\<close>

text \<open>\<^verbatim>\<open>post.options.some(opt => opt.voters.includes(userId))\<close>.\<close>

definition hasVoted :: "post \<Rightarrow> string \<Rightarrow> bool" where
  "hasVoted post uid = list_ex (\<lambda>opt. uid \<in> set (voters opt)) (options post)"

text \<open>The two writes to \<^verbatim>\<open>post.options[optionIndex]\<close>.\<close>

definition add_vote :: "string \<Rightarrow> poll_option \<Rightarrow> poll_option" where
  "add_vote uid opt = opt\<lparr>votes := votes opt + 1, voters := voters opt @ [uid]\<rparr>"

text \<open>
  The vote as it changes the post. An index outside the options reads \<^verbatim>\<open>undefined\<close>, and
  the write to its \<^verbatim>\<open>votes\<close> throws a TypeError: \<open>None\<close>.
\<close>

definition cast_vote :: "post \<Rightarrow> int \<Rightarrow> string \<Rightarrow> post option" where
  "cast_vote post optionIndex uid =
     (if 0 \<le> optionIndex \<and> optionIndex < int (length (options post))
      then Some (post\<lparr>options := (options post)
                          [nat optionIndex := add_vote uid (options post ! nat optionIndex)],
                       totalVotes := totalVotes post + 1\<rparr>)
      else None)"

text \<open>\<^verbatim>\<open>user.interactions.push({ postId: post._id, type })\<close>, the timestamp defaulting to now.\<close>

definition push_interaction :: "int \<Rightarrow> kind \<Rightarrow> post \<Rightarrow> user \<Rightarrow> user" where
  "push_interaction now k post u =
     u\<lparr>interactions := interactions u @ [\<lparr>postId = pid post, kind = k, timestamp = now\<rparr>]\<rparr>"

text \<open>\<^verbatim>\<open>post.tags.forEach(tag => { if (!user.interests.includes(tag)) user.interests.push(tag) })\<close>.\<close>

definition add_interests :: "string list \<Rightarrow> user \<Rightarrow> user" where
  "add_interests ts u =
     u\<lparr>interests := foldl (\<lambda>acc tag. if tag \<in> set acc then acc else acc @ [tag]) (interests u) ts\<rparr>"

text \<open>\<^verbatim>\<open>POST /api/posts/:id/vote\<close>.\<close>

definition vote :: "int \<Rightarrow> db \<Rightarrow> nat \<Rightarrow> int \<Rightarrow> string \<Rightarrow> response \<times> db" where
  "vote now d i optionIndex uid =
     (if uid = [] then (Error 400 ''userId required'', d)
      else case findById (posts d) i of
        None \<Rightarrow> (Error 404 ''Post not found'', d)
      | Some post \<Rightarrow>
          if hasVoted post uid then (Error 400 ''Already voted'', d)
          else (case cast_vote post optionIndex uid of
            None \<Rightarrow> (Error 500 ''Cannot read properties of undefined'', d)
          | Some post' \<Rightarrow>
              (let d1 = d\<lparr>posts := save_post post' (posts d)\<rparr>
               in case findOne (users d1) uid of
                    None \<Rightarrow> (OkMsg ''Vote recorded'' post', d1)
                  | Some user \<Rightarrow>
                      (OkMsg ''Vote recorded'' post',
                       d1\<lparr>users := save_user
                                      (add_interests (tags post') (push_interaction now Vote post' user))
                                      (users d1)\<rparr>))))"

text \<open>\<^verbatim>\<open>POST /api/posts/:id/like\<close>: a toggle; the interaction is pushed in the like branch only.\<close>

definition like :: "int \<Rightarrow> db \<Rightarrow> nat \<Rightarrow> string \<Rightarrow> response \<times> db" where
  "like now d i uid =
     (if uid = [] then (Error 400 ''userId required'', d)
      else case findById (posts d) i of
        None \<Rightarrow> (Error 404 ''Post not found'', d)
      | Some post \<Rightarrow>
          (let hasLiked = uid \<in> set (likes post)
           in if hasLiked
              then (let post' = post\<lparr>likes := filter (\<lambda>x. x \<noteq> uid) (likes post),
                                      likesCount := likesCount post - 1\<rparr>
                    in (OkMsg ''Unliked'' post', d\<lparr>posts := save_post post' (posts d)\<rparr>))
              else (let post' = post\<lparr>likes := likes post @ [uid],
                                      likesCount := likesCount post + 1\<rparr>;
                        d1 = (case findOne (users d) uid of
                                None \<Rightarrow> d
                              | Some user \<Rightarrow>
                                  d\<lparr>users := save_user (push_interaction now Like post' user) (users d)\<rparr>)
                    in (OkMsg ''Liked'' post', d1\<lparr>posts := save_post post' (posts d1)\<rparr>))))"

text \<open>\<^verbatim>\<open>POST /api/posts/:id/share\<close>.\<close>

definition share :: "int \<Rightarrow> db \<Rightarrow> nat \<Rightarrow> string \<Rightarrow> response \<times> db" where
  "share now d i uid =
     (case findById (posts d) i of
        None \<Rightarrow> (Error 404 ''Post not found'', d)
      | Some post \<Rightarrow>
          (let post' = post\<lparr>shares := shares post + 1\<rparr>;
               d1 = d\<lparr>posts := save_post post' (posts d)\<rparr>;
               d2 = (if uid \<noteq> []
                     then (case findOne (users d1) uid of
                             None \<Rightarrow> d1
                           | Some user \<Rightarrow>
                               d1\<lparr>users := save_user (push_interaction now Share post' user) (users d1)\<rparr>)
                     else d1)
           in (OkMsg ''Share recorded'' post', d2)))"

text \<open>\<^verbatim>\<open>GET /api/posts/:id\<close>, which counts a view.\<close>

definition view :: "int \<Rightarrow> db \<Rightarrow> nat \<Rightarrow> string \<Rightarrow> response \<times> db" where
  "view now d i uid =
     (case findById (posts d) i of
        None \<Rightarrow> (Error 404 ''Post not found'', d)
      | Some post \<Rightarrow>
          (let post' = post\<lparr>views := views post + 1\<rparr>;
               d1 = d\<lparr>posts := save_post post' (posts d)\<rparr>;
               d2 = (if uid \<noteq> []
                     then (case findOne (users d1) uid of
                             None \<Rightarrow> d1
                           | Some user \<Rightarrow>
                               d1\<lparr>users := save_user (push_interaction now View post' user) (users d1)\<rparr>)
                     else d1)
           in (OkPost post', d2)))"

text \<open>\<^verbatim>\<open>DELETE /api/posts/:id\<close>: only the creator deletes.\<close>

definition deletePost :: "db \<Rightarrow> nat \<Rightarrow> string \<Rightarrow> response \<times> db" where
  "deletePost d i uid =
     (case findById (posts d) i of
        None \<Rightarrow> (Error 404 ''Post not found'', d)
      | Some post \<Rightarrow>
          if creatorId post \<noteq> uid then (Error 403 ''Not authorized'', d)
          else (Ok ''Post deleted'', d\<lparr>posts := filter (\<lambda>q. pid q \<noteq> i) (posts d)\<rparr>))"

text \<open>\<^verbatim>\<open>POST /api/users\<close>: the user is created when no record has the identifier.\<close>

definition createUser :: "db \<Rightarrow> string \<Rightarrow> string \<Rightarrow> response \<times> db" where
  "createUser d uid name =
     (if uid = [] \<or> name = [] then (Error 400 ''userId and username required'', d)
      else case findOne (users d) uid of
        None \<Rightarrow>
          (let user = \<lparr>userId = uid, username = name, interactions = [], interests = []\<rparr>
           in (OkUser ''User ready'' user, d\<lparr>users := users d @ [user]\<rparr>))
      | Some user \<Rightarrow> (OkUser ''User ready'' user, d))"

text \<open>
  The document that \<^verbatim>\<open>new Post({...})\<close> builds in \<^verbatim>\<open>POST /api/posts\<close>, with the schema's
  defaults; the store gives the identifier.
\<close>

definition new_post :: "nat \<Rightarrow> int \<Rightarrow> string \<Rightarrow> string \<Rightarrow> string \<Rightarrow> string list \<Rightarrow> string list \<Rightarrow> post" where
  "new_post i now cid cname ttl opts tgs =
     \<lparr>pid = i, creatorId = cid, creatorName = cname, title = ttl,
      options = map (\<lambda>opt. \<lparr>otext = opt, votes = 0, voters = []\<rparr>) opts,
      totalVotes = 0, likes = [], likesCount = 0, shares = 0, views = 0,
      tags = tgs, createdAt = now, engagementScore = 0, trendingScore = 0\<rparr>"

section \<open>Handlers of the small service\<close>

text \<open>\<^verbatim>\<open>POST /api/posts/:id/vote\<close>: no check of \<^verbatim>\<open>userId\<close>, no tracking.\<close>

definition vote_small :: "db \<Rightarrow> nat \<Rightarrow> int \<Rightarrow> string \<Rightarrow> response \<times> db" where
  "vote_small d i optionIndex uid =
     (case findById (posts d) i of
        None \<Rightarrow> (Error 404 ''Post not found'', d)
      | Some post \<Rightarrow>
          if hasVoted post uid then (Error 400 ''Already voted'', d)
          else (case cast_vote post optionIndex uid of
            None \<Rightarrow> (Error 500 ''Cannot read properties of undefined'', d)
          | Some post' \<Rightarrow> (OkPost post', d\<lparr>posts := save_post post' (posts d)\<rparr>)))"

text \<open>\<^verbatim>\<open>Array.prototype.indexOf\<close> (-1 when absent) and \<^verbatim>\<open>splice(idx, 1)\<close>.\<close>

fun indexOf :: "'a list \<Rightarrow> 'a \<Rightarrow> int" where
  "indexOf [] x = - 1"
| "indexOf (y # ys) x =
     (if y = x then 0 else (let j = indexOf ys x in if j > - 1 then j + 1 else - 1))"

definition splice1 :: "nat \<Rightarrow> 'a list \<Rightarrow> 'a list" where
  "splice1 idx xs = take idx xs @ drop (Suc idx) xs"

text \<open>
  \<^verbatim>\<open>POST /api/posts/:id/like\<close>: the post is not checked, so a missing post throws on
  \<^verbatim>\<open>post.likes\<close>.
\<close>

definition like_small :: "db \<Rightarrow> nat \<Rightarrow> string \<Rightarrow> response \<times> db" where
  "like_small d i uid =
     (case findById (posts d) i of
        None \<Rightarrow> (Error 500 ''Cannot read properties of null'', d)
      | Some post \<Rightarrow>
          (let idx = indexOf (likes post) uid;
               post' = (if idx > - 1
                        then post\<lparr>likes := splice1 (nat idx) (likes post),
                                  likesCount := likesCount post - 1\<rparr>
                        else post\<lparr>likes := likes post @ [uid],
                                  likesCount := likesCount post + 1\<rparr>)
           in (OkPost post', d\<lparr>posts := save_post post' (posts d)\<rparr>)))"

section \<open>Sequences of requests\<close>

text \<open>
  A request to the service, or a run of the trending job with the writes the store
  accepts and the times it reads. Each request is made at a time of its own.
\<close>

datatype request =
    VoteReq nat int string
  | LikeReq nat string
  | ShareReq nat string
  | ViewReq nat string
  | DeleteReq nat string
  | JobRun "nat \<Rightarrow> bool" "nat \<Rightarrow> int"

fun exec :: "db \<Rightarrow> int \<times> request \<Rightarrow> db" where
  "exec d (now, VoteReq i k uid) = snd (vote now d i k uid)"
| "exec d (now, LikeReq i uid) = snd (like now d i uid)"
| "exec d (now, ShareReq i uid) = snd (share now d i uid)"
| "exec d (now, ViewReq i uid) = snd (view now d i uid)"
| "exec d (now, DeleteReq i uid) = snd (deletePost d i uid)"
| "exec d (now, JobRun write_ok clock) = snd (updateTrendingScores write_ok clock d)"

text \<open>The small service has the vote and like routes and the job; it has no other route here.\<close>

fun exec_small :: "db \<Rightarrow> int \<times> request \<Rightarrow> db" where
  "exec_small d (now, VoteReq i k uid) = snd (vote_small d i k uid)"
| "exec_small d (now, LikeReq i uid) = snd (like_small d i uid)"
| "exec_small d (now, JobRun write_ok clock) = snd (updateTrendingScores write_ok clock d)"
| "exec_small d (now, r) = d"

definition run :: "db \<Rightarrow> (int \<times> request) list \<Rightarrow> db" where
  "run d rs = foldl exec d rs"

definition run_small :: "db \<Rightarrow> (int \<times> request) list \<Rightarrow> db" where
  "run_small d rs = foldl exec_small d rs"

text \<open>
  The counters of a post agree with what they count. The likes hold no identifier twice:
  the unlike branch of the larger service removes every occurrence and counts one.
\<close>

definition post_inv :: "post \<Rightarrow> bool" where
  "post_inv p \<longleftrightarrow>
     totalVotes p = sum_list (map votes (options p))
     \<and> likesCount p = int (length (likes p))
     \<and> distinct (likes p)"

definition store_inv :: "db \<Rightarrow> bool" where
  "store_inv d \<longleftrightarrow> list_all post_inv (posts d)"

text \<open>
  The votes of a post \<open>p\<close> are kept in \<open>q\<close>: \<open>q\<close> has the same number of options, and
  every option of \<open>q\<close> starts with the voters that the option had in \<open>p\<close> and counts no
  fewer votes.
\<close>

definition keeps_votes :: "post \<Rightarrow> post \<Rightarrow> bool" where
  "keeps_votes p q \<longleftrightarrow>
     list_all2 (\<lambda>a b. prefix (voters a) (voters b) \<and> votes a \<le> votes b) (options p) (options q)"

text \<open>
  One request changes at most one post, and the changed post keeps its identifier and its
  votes, and keeps the counters right if they were.
\<close>

definition touched :: "post list \<Rightarrow> post list \<Rightarrow> bool" where
  "touched ps ps' \<longleftrightarrow>
     ps' = ps \<or> (\<exists>p p'. findById ps (pid p) = Some p \<and> pid p' = pid p \<and> keeps_votes p p'
                    \<and> (post_inv p \<longrightarrow> post_inv p') \<and> ps' = save_post p' ps)"

text \<open>A response that reports success.\<close>

fun succeeded :: "response \<Rightarrow> bool" where
  "succeeded (Error n msg) = False"
| "succeeded r = True"

section \<open>Orders and sample data\<close>

text \<open>
  The order of a ranked page: higher relevance first, and the newer post first among
  equal relevance.
\<close>

definition ranks_before :: "post \<times> real \<Rightarrow> post \<times> real \<Rightarrow> bool" where
  "ranks_before a b \<longleftrightarrow>
     snd b < snd a \<or> (snd a = snd b \<and> createdAt (fst b) \<le> createdAt (fst a))"

text \<open>
  The ranking of the eligible posts under a score: the posts that are in none of the
  given interactions, each with its score, in the order of the \<^verbatim>\<open>$sort\<close> stage.
\<close>

definition ranked :: "(post \<Rightarrow> real) \<Rightarrow> nat list \<Rightarrow> post list \<Rightarrow> (post \<times> real) list" where
  "ranked score interactedPostIds ps =
     sort_key (\<lambda>(p, r). (- r, - createdAt p))
       (map (\<lambda>p. (p, score p)) (filter (\<lambda>p. pid p \<notin> set interactedPostIds) ps))"

text \<open>The posts that the feed's \<^verbatim>\<open>$match\<close> stage excludes for an identifier.\<close>

definition seen_by :: "db \<Rightarrow> string \<Rightarrow> nat list" where
  "seen_by d uid =
     (case findOne (users d) uid of
        None \<Rightarrow> []
      | Some user \<Rightarrow> map postId (interactions user))"

text \<open>The order of the trending ranking: higher trending score first, then the newer post.\<close>

definition trends_before :: "post \<Rightarrow> post \<Rightarrow> bool" where
  "trends_before a b \<longleftrightarrow>
     trendingScore b < trendingScore a
     \<or> (trendingScore a = trendingScore b \<and> createdAt b \<le> createdAt a)"

text \<open>A store with three posts and one user, who has seen the third post.\<close>

definition post_a :: post where
  "post_a = example_post\<lparr>pid := 1, tags := [''sports'', ''tech''], trendingScore := 5,
                          createdAt := 1000\<rparr>"

definition post_b :: post where
  "post_b = example_post\<lparr>pid := 2, tags := [''news''], trendingScore := 7, createdAt := 2000\<rparr>"

definition post_c :: post where
  "post_c = example_post\<lparr>pid := 3, tags := [''music''], trendingScore := 7, createdAt := 3000\<rparr>"

definition user_u :: user where
  "user_u = \<lparr>userId = ''u1'', username = ''Ann'',
             interactions = [\<lparr>postId = 3, kind = View, timestamp = 5\<rparr>],
             interests = [''sports'', ''news'']\<rparr>"

definition db0 :: db where
  "db0 = \<lparr>posts = [post_a, post_b, post_c], users = [user_u]\<rparr>"

text \<open>A store with one new poll of two options, and the same user.\<close>

definition poll :: post where
  "poll = new_post 7 100 ''u2'' ''Bob'' ''Tea or coffee?'' [''tea'', ''coffee''] [''drinks'']"

definition db1 :: db where
  "db1 = \<lparr>posts = [poll], users = [user_u]\<rparr>"


text \<open>The post \<open>i\<close> is in the feed of \<open>uid\<close> when the window is the whole store.\<close>

definition in_feed :: "int \<Rightarrow> db \<Rightarrow> string \<Rightarrow> nat \<Rightarrow> bool" where
  "in_feed now d uid i \<longleftrightarrow>
     (case getPersonalizedFeed now d uid (length (posts d)) 0 of
        Inl e \<Rightarrow> False
      | Inr docs \<Rightarrow> i \<in> set (map (\<lambda>doc. pid (fst doc)) docs))"

text \<open>
  For the trending job: the post as one accepted write leaves it, a store that rejects
  the write to one post, and a clock that reads a post's creation time in \<open>db0\<close>.
\<close>

definition rescore :: "(nat \<Rightarrow> int) \<Rightarrow> post \<Rightarrow> post" where
  "rescore clock p =
     p\<lparr>engagementScore := calculateEngagementScore (clock (pid p)) p,
       trendingScore := calculateEngagementScore (clock (pid p)) p\<rparr>"

definition all_but :: "nat \<Rightarrow> nat \<Rightarrow> bool" where
  "all_but j i \<longleftrightarrow> i \<noteq> j"

definition clock0 :: "nat \<Rightarrow> int" where
  "clock0 i = 1000 * int i"

section \<open>Facts about the exponential\<close>

text \<open>
  Six terms of the Maclaurin series of \<open>exp\<close> at \<open>-1/2\<close>, with the remainder bounded by
  \<open>exp (1/2) \<le> 2\<close>.
\<close>

lemma exp_minus_half_bounds:
  "(2329 / 3840 :: real) \<le> exp (- (1/2)) \<and> exp (- (1/2)) \<le> (2329 / 3840 + 1 / 23040 :: real)"
proof -
  obtain t :: real where t: "\<bar>t\<bar> \<le> \<bar>- (1/2)\<bar>"
    and e: "exp (- (1/2)) = (\<Sum>m<6. ((- (1/2)) ^ m) / fact m) + (exp t / fact 6) * (- (1/2)) ^ 6"
    using Maclaurin_exp_le [of "- (1/2)" 6] by blast
  have s: "(\<Sum>m<6. ((- (1/2 :: real)) ^ m) / fact m) = 2329 / 3840"
    by (simp add: lessThan_nat_numeral lessThan_Suc fact_numeral power_divide)
  have r: "(exp t / fact 6) * (- (1/2)) ^ 6 = exp t / 46080"
    by (simp add: fact_numeral power_divide)
  have "t \<le> 1/2" using t by simp
  then have "exp t \<le> exp (1/2)" by simp
  then have u: "exp t \<le> 2" using exp_half_le2 by linarith
  have l: "0 \<le> exp t" by simp
  have "exp (- (1/2)) = 2329 / 3840 + exp t / 46080"
    by (simp only: e s r)
  then show ?thesis using u l by linarith
qed

lemma rawScore_nonneg:
  assumes "0 \<le> totalVotes p" "0 \<le> likesCount p" "0 \<le> shares p" "0 \<le> views p"
  shows "0 \<le> real_of_int (totalVotes p) + real_of_int (likesCount p) * 0.5
            + real_of_int (shares p) * 2 + real_of_int (views p) * 0.1"
  using assms by simp

lemma decay_antimono:
  fixes now now' c :: int
  assumes "now \<le> now'"
  shows "exp (- (real_of_int (now' - c) / 3600000) / 48)
          \<le> exp (- (real_of_int (now - c) / 3600000) / 48)"
  using assms by (simp add: divide_right_mono)

section \<open>Claims about the engagement score\<close>

text \<open>
  C1. For every post and every time \<open>now\<close>, the score is
  \<open>(totalVotes * 1 + likesCount * 0.5 + shares * 2 + views * 0.1) * e ^ (- ageInHours / 48)\<close>
  with \<open>ageInHours\<close> the age in seconds divided by 3600 (the age in milliseconds divided
  by 1000 being the age in seconds). A post with counters 10, 4, 3 and 50 scores
  \<open>23 * e ^ (- 1/2)\<close> at the age of 24 hours, which lies between 13.949 and 13.951; a post
  whose four counters are zero scores 0 at every age.
\<close>

theorem score_formula:
  "calculateEngagementScore now p =
     (real_of_int (totalVotes p) * 1 + real_of_int (likesCount p) * 0.5
        + real_of_int (shares p) * 2 + real_of_int (views p) * 0.1)
       * exp (- ((real_of_int (now - createdAt p) / 1000) / 3600) / 48)
   \<and> calculateEngagementScore (createdAt p + 24 * 3600 * 1000)
        (p\<lparr>totalVotes := 10, likesCount := 4, shares := 3, views := 50\<rparr>)
       = 23 * exp (- (1/2))
   \<and> 13.949 < 23 * exp (- (1/2) :: real) \<and> 23 * exp (- (1/2) :: real) < 13.951
   \<and> calculateEngagementScore now
        (p\<lparr>totalVotes := 0, likesCount := 0, shares := 0, views := 0\<rparr>) = 0"
proof -
  have f: "calculateEngagementScore now p =
     (real_of_int (totalVotes p) * 1 + real_of_int (likesCount p) * 0.5
        + real_of_int (shares p) * 2 + real_of_int (views p) * 0.1)
       * exp (- ((real_of_int (now - createdAt p) / 1000) / 3600) / 48)"
    by (simp add: calculateEngagementScore_def)
  have c: "calculateEngagementScore (createdAt p + 24 * 3600 * 1000)
        (p\<lparr>totalVotes := 10, likesCount := 4, shares := 3, views := 50\<rparr>)
       = 23 * exp (- (1/2))"
    by (simp add: calculateEngagementScore_def)
  have b: "13.949 < 23 * exp (- (1/2) :: real) \<and> 23 * exp (- (1/2) :: real) < 13.951"
    using exp_minus_half_bounds by simp
  have z: "calculateEngagementScore now
        (p\<lparr>totalVotes := 0, likesCount := 0, shares := 0, views := 0\<rparr>) = 0"
    by (simp add: calculateEngagementScore_def)
  from f c b z show ?thesis by blast
qed

text \<open>
  C7. For a post whose four counters are not negative, the score does not grow with
  \<open>now\<close>; and at a fixed time the score does not shrink when one counter (votes, likes,
  shares or views) grows and the rest of the post stays as it is.
\<close>

theorem score_monotone:
  assumes "0 \<le> totalVotes p" "0 \<le> likesCount p" "0 \<le> shares p" "0 \<le> views p"
  shows "(now \<le> now' \<longrightarrow> calculateEngagementScore now' p \<le> calculateEngagementScore now p)
       \<and> (a \<le> b \<longrightarrow> calculateEngagementScore now (p\<lparr>totalVotes := a\<rparr>)
                        \<le> calculateEngagementScore now (p\<lparr>totalVotes := b\<rparr>))
       \<and> (a \<le> b \<longrightarrow> calculateEngagementScore now (p\<lparr>likesCount := a\<rparr>)
                        \<le> calculateEngagementScore now (p\<lparr>likesCount := b\<rparr>))
       \<and> (a \<le> b \<longrightarrow> calculateEngagementScore now (p\<lparr>shares := a\<rparr>)
                        \<le> calculateEngagementScore now (p\<lparr>shares := b\<rparr>))
       \<and> (a \<le> b \<longrightarrow> calculateEngagementScore now (p\<lparr>views := a\<rparr>)
                        \<le> calculateEngagementScore now (p\<lparr>views := b\<rparr>))"
proof -
  have age: "calculateEngagementScore now' p \<le> calculateEngagementScore now p"
    if "now \<le> now'"
  proof -
    have "(real_of_int (totalVotes p) + real_of_int (likesCount p) * 0.5
            + real_of_int (shares p) * 2 + real_of_int (views p) * 0.1)
          * exp (- (real_of_int (now' - createdAt p) / 3600000) / 48)
        \<le> (real_of_int (totalVotes p) + real_of_int (likesCount p) * 0.5
            + real_of_int (shares p) * 2 + real_of_int (views p) * 0.1)
          * exp (- (real_of_int (now - createdAt p) / 3600000) / 48)"
      by (rule mult_left_mono [OF decay_antimono [OF that] rawScore_nonneg [OF assms]])
    then show ?thesis
      by (simp add: calculateEngagementScore_def)
  qed
  have v: "calculateEngagementScore now (p\<lparr>totalVotes := a\<rparr>)
            \<le> calculateEngagementScore now (p\<lparr>totalVotes := b\<rparr>)" if "a \<le> b"
    using that by (simp add: calculateEngagementScore_def)
  have l: "calculateEngagementScore now (p\<lparr>likesCount := a\<rparr>)
            \<le> calculateEngagementScore now (p\<lparr>likesCount := b\<rparr>)" if "a \<le> b"
    using that by (simp add: calculateEngagementScore_def)
  have s: "calculateEngagementScore now (p\<lparr>shares := a\<rparr>)
            \<le> calculateEngagementScore now (p\<lparr>shares := b\<rparr>)" if "a \<le> b"
    using that by (simp add: calculateEngagementScore_def)
  have w: "calculateEngagementScore now (p\<lparr>views := a\<rparr>)
            \<le> calculateEngagementScore now (p\<lparr>views := b\<rparr>)" if "a \<le> b"
    using that by (simp add: calculateEngagementScore_def)
  from age v l s w show ?thesis by blast
qed

theorem score_monotone_witness:
  "0 \<le> totalVotes example_post \<and> 0 \<le> likesCount example_post
   \<and> 0 \<le> shares example_post \<and> 0 \<le> views example_post
   \<and> calculateEngagementScore 7200000 example_post
       \<le> calculateEngagementScore 3600000 example_post
   \<and> calculateEngagementScore 3600000 (example_post\<lparr>totalVotes := 10\<rparr>)
       \<le> calculateEngagementScore 3600000 (example_post\<lparr>totalVotes := 11\<rparr>)
   \<and> calculateEngagementScore 3600000 (example_post\<lparr>likesCount := 10\<rparr>)
       \<le> calculateEngagementScore 3600000 (example_post\<lparr>likesCount := 11\<rparr>)
   \<and> calculateEngagementScore 3600000 (example_post\<lparr>shares := 10\<rparr>)
       \<le> calculateEngagementScore 3600000 (example_post\<lparr>shares := 11\<rparr>)
   \<and> calculateEngagementScore 3600000 (example_post\<lparr>views := 10\<rparr>)
       \<le> calculateEngagementScore 3600000 (example_post\<lparr>views := 11\<rparr>)"
proof -
  have h: "0 \<le> totalVotes example_post" "0 \<le> likesCount example_post"
    "0 \<le> shares example_post" "0 \<le> views example_post"
    by (simp_all add: example_post_def)
  have le: "(3600000::int) \<le> 7200000" "(10::int) \<le> 11" by simp_all
  show ?thesis
    using h le score_monotone [OF h, of 3600000 7200000 10 11] by blast
qed

section \<open>Facts about the feed\<close>

lemma ranked_sorted: "sorted_wrt ranks_before (ranked score seen ps)"
proof -
  have "sorted (map (\<lambda>(p, r). (- r, - createdAt p)) (ranked score seen ps))"
    unfolding ranked_def by (rule sorted_sort_key)
  then have "sorted_wrt (\<lambda>x y. (case x of (p, r) \<Rightarrow> (- r, - createdAt p)) \<le> (case y of (p, r) \<Rightarrow> (- r, - createdAt p))) (ranked score seen ps)"
    by (simp add: sorted_wrt_map)
  then show ?thesis
    by (rule sorted_wrt_mono_rel [rotated]) (auto simp: ranks_before_def)
qed

lemma ranked_scores: "(p, r) \<in> set (ranked score seen ps) \<Longrightarrow> r = score p \<and> p \<in> set ps \<and> pid p \<notin> set seen"
  by (auto simp: ranked_def)

lemma ranked_mset: "mset (map fst (ranked score seen ps)) = mset (filter (\<lambda>p. pid p \<notin> set seen) ps)"
proof -
  have m: "map fst (map (\<lambda>p. (p, score p)) xs) = xs" for xs :: "post list"
    by (induction xs) simp_all
  have "mset (map fst (ranked score seen ps))
      = mset (map fst (map (\<lambda>p. (p, score p)) (filter (\<lambda>p. pid p \<notin> set seen) ps)))"
    unfolding ranked_def by (simp only: mset_map mset_sort)
  then show ?thesis by (simp only: m)
qed

lemma overlap_card: "length (setIntersection xs ys) = card (set xs \<inter> set ys)"
proof -
  have "set (filter (\<lambda>x. x \<in> set ys) xs) = set xs \<inter> set ys" by auto
  then show ?thesis
    by (simp add: setIntersection_def length_remdups_card_conv)
qed

lemma sort_trending_sorted: "sorted_wrt trends_before (sort_trending ps)"
proof -
  have "sorted (map (\<lambda>p. (- trendingScore p, - createdAt p)) (sort_trending ps))"
    unfolding sort_trending_def by (rule sorted_sort_key)
  then have "sorted_wrt (\<lambda>x y. (- trendingScore x, - createdAt x) \<le> (- trendingScore y, - createdAt y)) (sort_trending ps)"
    by (simp add: sorted_wrt_map)
  then show ?thesis
    by (rule sorted_wrt_mono_rel [rotated]) (auto simp: trends_before_def)
qed

lemma sort_trending_mset: "mset (sort_trending ps) = mset ps"
  by (simp add: sort_trending_def)

lemma addFields_pure: "addFields (\<lambda>p. Inr (f p)) ps = Inr (map (\<lambda>p. (p, f p)) ps)"
  by (induction ps) simp_all

lemma addFields_posts: "addFields score ps = Inr rs \<Longrightarrow> map fst rs = ps"
  by (induction ps arbitrary: rs) (auto split: sum.splits)

lemma addFields_rejected:
  "ps \<noteq> [] \<Longrightarrow> (\<And>p. score p = Inl e) \<Longrightarrow> addFields score ps = Inl e"
  by (cases ps) simp_all

lemma relevance_rejected: "relevance now userInterests p = Inl ''cant $subtract a date from a double''"
  by (simp add: relevance_def)

lemma aggregate_page:
  "0 < limit \<Longrightarrow> aggregate (\<lambda>p. Inr (f p)) seen skip limit ps
     = Inr (map (\<lambda>(p, r). (p, Some r)) (take limit (drop skip (ranked f seen ps))))"
  by (simp add: aggregate_def addFields_pure ranked_def)

lemma aggregate_unseen:
  assumes "aggregate score seen skip limit ps = Inr docs" "doc \<in> set docs"
  shows "pid (fst doc) \<notin> set seen"
proof -
  from assms(1) obtain scored where
    a: "addFields score (filter (\<lambda>p. pid p \<notin> set seen) ps) = Inr scored"
    and d: "docs = map (\<lambda>(p, r). (p, Some r))
                    (take limit (drop skip (sort_key (\<lambda>(p, r). (- r, - createdAt p)) scored)))"
    by (auto simp: aggregate_def split: if_splits sum.splits)
  from d assms(2) obtain p r where
    pr: "(p, r) \<in> set (take limit (drop skip (sort_key (\<lambda>(p, r). (- r, - createdAt p)) scored)))"
    and e: "doc = (p, Some r)" by auto
  from pr have "(p, r) \<in> set (sort_key (\<lambda>(p, r). (- r, - createdAt p)) scored)"
    by (meson in_set_takeD in_set_dropD)
  then have "p \<in> set (map fst scored)" by force
  with addFields_posts [OF a] e show ?thesis by simp
qed

lemma feed_rejected:
  assumes "findOne (users d) uid = Some u" "0 < limit"
    "filter (\<lambda>p. pid p \<notin> postId ` set (interactions u)) (posts d) \<noteq> []"
  shows "getPersonalizedFeed now d uid limit skip = Inl ''cant $subtract a date from a double''"
  using assms
  by (simp add: getPersonalizedFeed_def aggregate_def addFields_rejected relevance_rejected)

lemma feed_small_relevance_order:
  assumes "findOne (users d) uid = Some u" and "0 < limit"
  shows "\<exists>full.
            getPersonalizedFeed_small d uid limit skip
              = Inr (map (\<lambda>(p, r). (p, Some r)) (take limit (drop skip full)))
          \<and> mset (map fst full)
              = mset (filter (\<lambda>p. pid p \<notin> postId ` set (interactions u)) (posts d))
          \<and> (\<forall>(p, r) \<in> set full.
                r = real (card (set (tags p) \<inter> set (interests u))) * 10 + trendingScore p)
          \<and> sorted_wrt ranks_before full
          \<and> sorted_wrt ranks_before (take limit (drop skip full))"
proof -
  let ?seen = "map postId (interactions u)"
  let ?g = "ranked (relevance_small (interests u)) ?seen (posts d)"
  have b: "getPersonalizedFeed_small d uid limit skip
              = Inr (map (\<lambda>(p, r). (p, Some r)) (take limit (drop skip ?g)))"
    using assms by (simp add: getPersonalizedFeed_small_def aggregate_page)
  have mg: "mset (map fst ?g) = mset (filter (\<lambda>p. pid p \<notin> postId ` set (interactions u)) (posts d))"
    by (simp only: ranked_mset set_map)
  have sg: "\<forall>(p, r) \<in> set ?g. r = real (card (set (tags p) \<inter> set (interests u))) * 10 + trendingScore p"
    using ranked_scores [of _ _ "relevance_small (interests u)" ?seen "posts d"]
    by (auto simp: relevance_small_def overlap_card)
  have og: "sorted_wrt ranks_before ?g" "sorted_wrt ranks_before (take limit (drop skip ?g))"
    by (simp_all add: ranked_sorted)
  from b mg sg og show ?thesis by blast
qed

lemmas sample_defs = db0_def post_a_def post_b_def post_c_def user_u_def example_post_def
lemmas feed_defs = getPersonalizedFeed_def getPersonalizedFeed_small_def findOne_def
  aggregate_def relevance_def relevance_small_def setIntersection_def
  trending_page_def cursor_limit_def sort_trending_def

section \<open>Claims about the feed\<close>

text \<open>
  C2. The claim holds in the small service and fails in the larger one. In the larger
  service the relevance expression subtracts the date \<^verbatim>\<open>createdAt\<close> from the number
  \<^verbatim>\<open>Date.now()\<close>, which the store rejects: for the known user of \<open>db0\<close>, who has two
  eligible posts, the feed ends with the store's error instead of a ranking. On the same
  store the small service returns the two eligible posts with relevance 17 and 15, the
  higher first; 15 is the relevance of the post tagged sports and tech with trending
  score 5 for the interests sports and news.
\<close>

theorem feed_recency_rejected:
  "findOne (users db0) ''u1'' = Some user_u
   \<and> getPersonalizedFeed 3000 db0 ''u1'' 20 0 = Inl ''cant $subtract a date from a double''
   \<and> subtract (Number 3000) (Date (createdAt post_a)) = Inl ''cant $subtract a date from a double''
   \<and> getPersonalizedFeed_small db0 ''u1'' 20 0 = Inr [(post_b, Some 17), (post_a, Some 15)]
   \<and> ranks_before (post_b, 17) (post_a, 15)
   \<and> relevance_small [''sports'', ''news''] post_a = 15"
  by (simp add: sample_defs feed_defs ranks_before_def)

text \<open>
  C5. For a known user, every limit and every skip, no document that the feed of either
  service returns is a post whose identifier is the \<open>postId\<close> of one of the user's
  interactions, of whatever kind; and for a positive limit the small service's feed does
  return.
\<close>

theorem feed_excludes_seen:
  assumes "findOne (users d) uid = Some u"
  shows "(0 < limit \<longrightarrow> (\<exists>docs. getPersonalizedFeed_small d uid limit skip = Inr docs))
       \<and> (\<forall>docs. getPersonalizedFeed now d uid limit skip = Inr docs
              \<longrightarrow> (\<forall>doc \<in> set docs. pid (fst doc) \<notin> postId ` set (interactions u)))
       \<and> (\<forall>docs. getPersonalizedFeed_small d uid limit skip = Inr docs
              \<longrightarrow> (\<forall>doc \<in> set docs. pid (fst doc) \<notin> postId ` set (interactions u)))"
proof -
  have r: "0 < limit \<longrightarrow> (\<exists>docs. getPersonalizedFeed_small d uid limit skip = Inr docs)"
    using assms by (simp add: getPersonalizedFeed_small_def aggregate_page)
  have a: "pid (fst doc) \<notin> postId ` set (interactions u)"
    if "getPersonalizedFeed now d uid limit skip = Inr docs" "doc \<in> set docs" for docs doc
    using that assms aggregate_unseen [of "relevance now (interests u)" "map postId (interactions u)" skip limit "posts d" docs doc]
    by (simp add: getPersonalizedFeed_def)
  have b: "pid (fst doc) \<notin> postId ` set (interactions u)"
    if "getPersonalizedFeed_small d uid limit skip = Inr docs" "doc \<in> set docs" for docs doc
    using that assms aggregate_unseen [of "\<lambda>p. Inr (relevance_small (interests u) p)" "map postId (interactions u)" skip limit "posts d" docs doc]
    by (simp add: getPersonalizedFeed_small_def)
  from r a b show ?thesis by blast
qed

theorem feed_excludes_seen_witness:
  "findOne (users db0) ''u1'' = Some user_u
   \<and> postId ` set (interactions user_u) = {3}
   \<and> getPersonalizedFeed_small db0 ''u1'' 5 0 = Inr [(post_b, Some 17), (post_a, Some 15)]
   \<and> pid post_b \<noteq> 3 \<and> pid post_a \<noteq> 3 \<and> pid post_c = 3"
  using feed_excludes_seen [of db0 "''u1''" user_u 5 0 0]
  by (simp add: sample_defs feed_defs)

text \<open>
  C6, as the code has it. For an identifier without a user record, the feed of both
  services is the trending ranking (all posts, by trending score descending, then by
  creation time descending), cut to the window from \<open>skip\<close> to \<open>skip + limit\<close> for a
  positive limit. The trending route reads a limit and no skip: the feed route answers
  with the same posts as the trending route when the skip is 0, and otherwise with the
  trending answer for the limit \<open>limit + skip\<close> after its first \<open>skip\<close> posts.
\<close>

theorem unknown_user_feed:
  assumes "findOne (users d) uid = None"
  shows "(0 < limit \<longrightarrow>
            getPersonalizedFeed now d uid limit skip
              = Inr (map (\<lambda>p. (p, None)) (take limit (drop skip (sort_trending (posts d)))))
          \<and> getPersonalizedFeed_small d uid limit skip
              = Inr (map (\<lambda>p. (p, None)) (take limit (drop skip (sort_trending (posts d))))))
       \<and> sorted_wrt trends_before (sort_trending (posts d))
       \<and> mset (sort_trending (posts d)) = mset (posts d)
       \<and> (or_default (q_skip q) 0 = 0 \<longrightarrow>
            feed_endpoint now d uid q = Inr (map (\<lambda>p. (p, None)) (trending_endpoint d q)))
       \<and> feed_endpoint now d uid q
            = Inr (map (\<lambda>p. (p, None))
                (drop (or_default (q_skip q) 0)
                   (trending_endpoint d
                      (q\<lparr>q_limit := Some (or_default (q_limit q) 20 + or_default (q_skip q) 0)\<rparr>))))"
proof -
  have l: "0 < or_default (q_limit q) 20"
    by (simp add: or_default_def split: option.splits)
  have a: "0 < limit \<longrightarrow>
            getPersonalizedFeed now d uid limit skip
              = Inr (map (\<lambda>p. (p, None)) (take limit (drop skip (sort_trending (posts d)))))
          \<and> getPersonalizedFeed_small d uid limit skip
              = Inr (map (\<lambda>p. (p, None)) (take limit (drop skip (sort_trending (posts d)))))"
    using assms
    by (simp add: getPersonalizedFeed_def getPersonalizedFeed_small_def trending_page_def
        cursor_limit_def)
  have f: "feed_endpoint now d uid q
            = Inr (map (\<lambda>p. (p, None))
                (take (or_default (q_limit q) 20)
                   (drop (or_default (q_skip q) 0) (sort_trending (posts d)))))"
    using assms l
    by (simp add: feed_endpoint_def getPersonalizedFeed_def trending_page_def cursor_limit_def)
  have t: "trending_endpoint d q = take (or_default (q_limit q) 20) (sort_trending (posts d))"
    using l by (simp add: trending_endpoint_def cursor_limit_def)
  have t': "trending_endpoint d
              (q\<lparr>q_limit := Some (or_default (q_limit q) 20 + or_default (q_skip q) 0)\<rparr>)
            = take (or_default (q_limit q) 20 + or_default (q_skip q) 0) (sort_trending (posts d))"
    using l by (simp add: trending_endpoint_def cursor_limit_def or_default_def)
  have b: "or_default (q_skip q) 0 = 0 \<longrightarrow>
            feed_endpoint now d uid q = Inr (map (\<lambda>p. (p, None)) (trending_endpoint d q))"
    by (simp add: f t)
  have c: "feed_endpoint now d uid q
            = Inr (map (\<lambda>p. (p, None))
                (drop (or_default (q_skip q) 0)
                   (trending_endpoint d
                      (q\<lparr>q_limit := Some (or_default (q_limit q) 20 + or_default (q_skip q) 0)\<rparr>))))"
    by (simp only: f t' take_drop)
  from a b c sort_trending_sorted [of "posts d"] sort_trending_mset [of "posts d"]
  show ?thesis by blast
qed

theorem unknown_user_feed_witness:
  "findOne (users db0) ''ghost'' = None \<and> 0 < (2::nat)
   \<and> or_default (q_skip \<lparr>q_limit = Some 2, q_skip = None\<rparr>) 0 = 0
   \<and> getPersonalizedFeed 0 db0 ''ghost'' 2 1 = Inr [(post_b, None), (post_a, None)]
   \<and> sort_trending (posts db0) = [post_c, post_b, post_a]
   \<and> feed_endpoint 0 db0 ''ghost'' \<lparr>q_limit = Some 2, q_skip = None\<rparr>
        = Inr [(post_c, None), (post_b, None)]
   \<and> trending_endpoint db0 \<lparr>q_limit = Some 2, q_skip = None\<rparr> = [post_c, post_b]"
  using unknown_user_feed [of db0 "''ghost''" 2 0 1 "\<lparr>q_limit = Some 2, q_skip = None\<rparr>"]
  by (simp add: sample_defs feed_defs feed_endpoint_def trending_endpoint_def or_default_def)

text \<open>
  C6 as stated fails for a skip that is not 0: with limit 1 and skip 1 the feed route
  answers with the second post of the ranking, the trending route with the first.
\<close>

theorem unknown_user_feed_counterexample:
  "findOne (users db0) ''ghost'' = None
   \<and> feed_endpoint 0 db0 ''ghost'' \<lparr>q_limit = Some 1, q_skip = Some 1\<rparr> = Inr [(post_b, None)]
   \<and> trending_endpoint db0 \<lparr>q_limit = Some 1, q_skip = Some 1\<rparr> = [post_c]
   \<and> post_b \<noteq> post_c"
  by (simp add: sample_defs feed_defs feed_endpoint_def trending_endpoint_def or_default_def)

section \<open>Facts about the handlers\<close>

lemma findById_Some: "findById ps i = Some p \<Longrightarrow> p \<in> set ps \<and> pid p = i"
  by (auto simp: findById_def find_Some_iff)

lemma findById_map:
  assumes "\<And>q. pid (f q) = pid q"
  shows "findById (map f ps) i = map_option f (findById ps i)"
  using assms by (induction ps) (simp_all add: findById_def)

lemma findById_save_post:
  assumes "findById ps j = Some p0" "pid p' = j"
  shows "findById (save_post p' ps) i = (if i = j then Some p' else findById ps i)"
proof -
  have m: "findById (save_post p' ps) i
             = map_option (\<lambda>q. if pid q = pid p' then p' else q) (findById ps i)"
    unfolding save_post_def by (rule findById_map) simp
  show ?thesis
  proof (cases "i = j")
    case True
    with assms m show ?thesis by (simp add: findById_Some)
  next
    case False
    show ?thesis
    proof (cases "findById ps i")
      case None
      with m False show ?thesis by simp
    next
      case (Some q)
      then have "pid q = i" by (simp add: findById_Some)
      with m False Some assms(2) show ?thesis by simp
    qed
  qed
qed

lemma findById_filter:
  "findById (filter (\<lambda>q. pid q \<noteq> j) ps) i = (if i = j then None else findById ps i)"
  by (induction ps) (auto simp: findById_def)

lemma save_post_inv:
  "post_inv p' \<Longrightarrow> list_all post_inv ps \<Longrightarrow> list_all post_inv (save_post p' ps)"
  by (induction ps) (simp_all add: save_post_def)

lemma sum_votes_update:
  "n < length xs \<Longrightarrow>
     sum_list (map votes (xs[n := add_vote uid (xs ! n)])) = sum_list (map votes xs) + 1"
  by (induction xs arbitrary: n) (auto simp: add_vote_def split: nat.splits)

lemma cast_vote_inv: "cast_vote p k uid = Some p' \<Longrightarrow> post_inv p \<Longrightarrow> post_inv p'"
  by (auto simp: cast_vote_def post_inv_def sum_votes_update split: if_splits)

lemma cast_vote_pid: "cast_vote p k uid = Some p' \<Longrightarrow> pid p' = pid p"
  by (auto simp: cast_vote_def split: if_splits)

lemma length_filter_neq:
  "distinct xs \<Longrightarrow> x \<in> set xs \<Longrightarrow> int (length (filter (\<lambda>y. y \<noteq> x) xs)) = int (length xs) - 1"
proof (induction xs)
  case Nil
  then show ?case by simp
next
  case (Cons a xs)
  show ?case
  proof (cases "a = x")
    case True
    with Cons.prems have "x \<notin> set xs" by simp
    then have "filter (\<lambda>y. y \<noteq> x) xs = xs" by (auto simp: filter_id_conv)
    with True show ?thesis by simp
  next
    case False
    with Cons show ?thesis by simp
  qed
qed

lemma indexOf_range: "- 1 \<le> indexOf xs x \<and> indexOf xs x < int (length xs)"
  by (induction xs) (auto simp: Let_def)

lemma indexOf_mem: "(indexOf xs x > - 1) = (x \<in> set xs)"
  using indexOf_range [of _ x] by (induction xs) (auto simp: Let_def)

lemma splice1_indexOf: "x \<in> set xs \<Longrightarrow> splice1 (nat (indexOf xs x)) xs = remove1 x xs"
proof (induction xs)
  case Nil
  then show ?case by simp
next
  case (Cons a xs)
  show ?case
  proof (cases "a = x")
    case True
    then show ?thesis by (simp add: splice1_def)
  next
    case False
    with Cons.prems have m: "x \<in> set xs" by simp
    then have g: "indexOf xs x > - 1" by (simp add: indexOf_mem)
    then have "nat (indexOf xs x + 1) = Suc (nat (indexOf xs x))" by simp
    with False g Cons.IH [OF m] show ?thesis
      by (simp add: splice1_def Let_def)
  qed
qed



lemma keeps_votes_refl: "keeps_votes p p"
  by (simp add: keeps_votes_def list_all2_same)

lemma keeps_votes_options: "options q = options p \<Longrightarrow> keeps_votes p q"
  by (simp add: keeps_votes_def list_all2_same)

lemma keeps_votes_trans:
  assumes "keeps_votes p q" "keeps_votes q r"
  shows "keeps_votes p r"
proof -
  from assms have l: "length (options p) = length (options q)"
    "length (options q) = length (options r)"
    by (auto simp: keeps_votes_def dest: list_all2_lengthD)
  have "prefix (voters (options p ! n)) (voters (options r ! n))
          \<and> votes (options p ! n) \<le> votes (options r ! n)"
    if "n < length (options p)" for n
  proof -
    from assms(1) that have a: "prefix (voters (options p ! n)) (voters (options q ! n))"
      "votes (options p ! n) \<le> votes (options q ! n)"
      by (auto simp: keeps_votes_def list_all2_conv_all_nth)
    from assms(2) that l have b: "prefix (voters (options q ! n)) (voters (options r ! n))"
      "votes (options q ! n) \<le> votes (options r ! n)"
      by (auto simp: keeps_votes_def list_all2_conv_all_nth)
    from a b show ?thesis by (auto simp: prefix_def)
  qed
  with l show ?thesis
    by (simp add: keeps_votes_def list_all2_conv_all_nth)
qed

lemma keeps_votes_cast: "cast_vote p k uid = Some p' \<Longrightarrow> keeps_votes p p'"
  by (auto simp: cast_vote_def keeps_votes_def list_all2_conv_all_nth nth_list_update add_vote_def
      split: if_splits)

lemma hasVoted_iff: "hasVoted p uid \<longleftrightarrow> (\<exists>n < length (options p). uid \<in> set (voters (options p ! n)))"
  unfolding hasVoted_def list_ex_iff by (metis in_set_conv_nth)

lemma hasVoted_keeps: "hasVoted p uid \<Longrightarrow> keeps_votes p q \<Longrightarrow> hasVoted q uid"
  unfolding hasVoted_iff keeps_votes_def list_all2_conv_all_nth
  by (metis set_mono_prefix subsetD)

lemma hasVoted_cast: "cast_vote p k uid = Some p' \<Longrightarrow> hasVoted p' uid"
  unfolding hasVoted_iff
  by (auto simp: cast_vote_def add_vote_def nth_list_update split: if_splits
      intro!: exI [of _ "nat k"])

lemma touched_refl: "touched ps ps"
  by (simp add: touched_def)

lemma touchedI:
  assumes "findById ps i = Some p" "pid p' = pid p" "keeps_votes p p'"
    "post_inv p \<Longrightarrow> post_inv p'"
  shows "touched ps (save_post p' ps)"
proof -
  from assms(1) have "findById ps (pid p) = Some p"
    by (simp add: findById_Some)
  with assms(2-4) show ?thesis
    unfolding touched_def by blast
qed

lemma touched_inv:
  assumes "touched ps ps'" "list_all post_inv ps"
  shows "list_all post_inv ps'"
proof (cases "ps' = ps")
  case True
  with assms(2) show ?thesis by simp
next
  case False
  with assms(1) obtain p p' where f: "findById ps (pid p) = Some p"
    and i: "post_inv p \<longrightarrow> post_inv p'" and e: "ps' = save_post p' ps"
    unfolding touched_def by blast
  from f have "p \<in> set ps" by (simp add: findById_Some)
  with assms(2) have "post_inv p" by (simp add: list_all_iff)
  with i have "post_inv p'" by simp
  with assms(2) e show ?thesis by (simp add: save_post_inv)
qed

lemma touched_keeps:
  assumes "touched ps ps'" "findById ps j = Some q"
  shows "\<exists>q'. findById ps' j = Some q' \<and> keeps_votes q q'"
  using assms unfolding touched_def
  by (auto simp: findById_save_post keeps_votes_refl)

lemma touched_none: "touched ps ps' \<Longrightarrow> findById ps j = None \<Longrightarrow> findById ps' j = None"
  unfolding touched_def by (auto simp: findById_save_post)

lemma vote_touched: "touched (posts d) (posts (snd (vote now d i k uid)))"
  by (auto simp: vote_def Let_def touched_refl cast_vote_pid cast_vote_inv keeps_votes_cast
      split: option.splits intro!: touchedI)

lemma vote_small_touched: "touched (posts d) (posts (snd (vote_small d i k uid)))"
  by (auto simp: vote_small_def Let_def touched_refl cast_vote_pid cast_vote_inv keeps_votes_cast
      split: option.splits intro!: touchedI)

lemma like_touched: "touched (posts d) (posts (snd (like now d i uid)))"
  by (auto simp: like_def Let_def touched_refl keeps_votes_options post_inv_def length_filter_neq
      split: option.splits intro!: touchedI)

lemma share_touched: "touched (posts d) (posts (snd (share now d i uid)))"
  by (auto simp: share_def Let_def touched_refl keeps_votes_options post_inv_def
      split: option.splits intro!: touchedI)

lemma view_touched: "touched (posts d) (posts (snd (view now d i uid)))"
  by (auto simp: view_def Let_def touched_refl keeps_votes_options post_inv_def
      split: option.splits intro!: touchedI)

lemma like_small_touched: "touched (posts d) (posts (snd (like_small d i uid)))"
proof (cases "findById (posts d) i")
  case None
  then show ?thesis by (simp add: like_small_def touched_refl)
next
  case (Some p)
  show ?thesis
  proof (cases "uid \<in> set (likes p)")
    case True
    then have g: "indexOf (likes p) uid > - 1" by (simp add: indexOf_mem)
    from True have n: "int (length (likes p) - Suc 0) = int (length (likes p)) - 1"
      by (cases "likes p") auto
    have "touched (posts d)
            (save_post (p\<lparr>likes := remove1 uid (likes p), likesCount := likesCount p - 1\<rparr>) (posts d))"
      using Some True n
      by (intro touchedI) (auto simp: keeps_votes_options post_inv_def length_remove1)
    with Some True g show ?thesis
      by (simp add: like_small_def Let_def splice1_indexOf)
  next
    case False
    then have g: "\<not> indexOf (likes p) uid > - 1" by (simp add: indexOf_mem)
    have "touched (posts d)
            (save_post (p\<lparr>likes := likes p @ [uid], likesCount := likesCount p + 1\<rparr>) (posts d))"
      using Some False
      by (intro touchedI) (auto simp: keeps_votes_options post_inv_def)
    with Some g show ?thesis
      by (simp add: like_small_def Let_def)
  qed
qed


lemma findByIdAndUpdate_inv:
  "list_all post_inv ps \<Longrightarrow> list_all post_inv (findByIdAndUpdate j sc ps)"
  by (induction ps) (simp_all add: findByIdAndUpdate_def post_inv_def)

lemma findByIdAndUpdate_options:
  "map_option options (findById (findByIdAndUpdate j sc ps) i) = map_option options (findById ps i)"
  by (induction ps) (simp_all add: findByIdAndUpdate_def findById_def)

lemma updateLoop_inv:
  "list_all post_inv store \<Longrightarrow> list_all post_inv (snd (updateLoop w c xs store))"
  by (induction xs arbitrary: store) (simp_all add: Let_def findByIdAndUpdate_inv)

lemma updateLoop_options:
  "map_option options (findById (snd (updateLoop w c xs store)) i)
     = map_option options (findById store i)"
  by (induction xs arbitrary: store) (simp_all add: Let_def findByIdAndUpdate_options)

lemma job_keeps:
  assumes "findById (posts d) j = Some q"
  shows "\<exists>q'. findById (posts (snd (updateTrendingScores w c d))) j = Some q' \<and> keeps_votes q q'"
proof -
  have "map_option options (findById (posts (snd (updateTrendingScores w c d))) j)
          = map_option options (findById (posts d) j)"
    by (simp add: updateTrendingScores_def Let_def updateLoop_options)
  with assms obtain q' where "findById (posts (snd (updateTrendingScores w c d))) j = Some q'"
    "options q' = options q" by auto
  then show ?thesis by (auto simp: keeps_votes_options)
qed

lemma job_none:
  assumes "findById (posts d) j = None"
  shows "findById (posts (snd (updateTrendingScores w c d))) j = None"
proof -
  have "map_option options (findById (posts (snd (updateTrendingScores w c d))) j)
          = map_option options (findById (posts d) j)"
    by (simp add: updateTrendingScores_def Let_def updateLoop_options)
  with assms show ?thesis by simp
qed

lemma job_inv: "store_inv d \<Longrightarrow> store_inv (snd (updateTrendingScores w c d))"
  by (simp add: store_inv_def updateTrendingScores_def Let_def updateLoop_inv)

lemma delete_posts:
  "posts (snd (deletePost d i uid)) = posts d
   \<or> posts (snd (deletePost d i uid)) = filter (\<lambda>q. pid q \<noteq> i) (posts d)"
  by (simp add: deletePost_def split: option.splits)

lemma exec_inv: "store_inv d \<Longrightarrow> store_inv (exec d r)"
proof (cases r)
  case (Pair now req)
  assume a: "store_inv d"
  show ?thesis
  proof (cases req)
    case (DeleteReq i uid)
    with Pair a delete_posts [of d i uid] show ?thesis
      by (auto simp: store_inv_def list_all_iff)
  next
    case (JobRun w c)
    with Pair a show ?thesis by (simp add: job_inv)
  qed (use Pair a in \<open>auto simp: store_inv_def
        intro: touched_inv [OF vote_touched] touched_inv [OF like_touched]
          touched_inv [OF share_touched] touched_inv [OF view_touched]\<close>)
qed

lemma exec_small_inv: "store_inv d \<Longrightarrow> store_inv (exec_small d r)"
proof (cases r)
  case (Pair now req)
  assume a: "store_inv d"
  show ?thesis
  proof (cases req)
    case (JobRun w c)
    with Pair a show ?thesis by (simp add: job_inv)
  qed (use Pair a in \<open>auto simp: store_inv_def
        intro: touched_inv [OF vote_small_touched] touched_inv [OF like_small_touched]\<close>)
qed

lemma exec_keeps:
  assumes "findById (posts d) j = Some q"
  shows "findById (posts (exec d r)) j = None
       \<or> (\<exists>q'. findById (posts (exec d r)) j = Some q' \<and> keeps_votes q q')"
proof (cases r)
  case (Pair now req)
  show ?thesis
  proof (cases req)
    case (DeleteReq i uid)
    with Pair assms delete_posts [of d i uid] show ?thesis
      by (cases "j = i") (auto simp: findById_filter keeps_votes_refl)
  next
    case (JobRun w c)
    with Pair job_keeps [OF assms] show ?thesis by simp
  qed (use Pair assms in \<open>auto
        dest: touched_keeps [OF vote_touched] touched_keeps [OF like_touched]
          touched_keeps [OF share_touched] touched_keeps [OF view_touched]\<close>)
qed

lemma exec_none: "findById (posts d) j = None \<Longrightarrow> findById (posts (exec d r)) j = None"
proof (cases r)
  case (Pair now req)
  assume a: "findById (posts d) j = None"
  show ?thesis
  proof (cases req)
    case (DeleteReq i uid)
    with Pair a delete_posts [of d i uid] show ?thesis
      by (auto simp: findById_filter)
  next
    case (JobRun w c)
    with Pair job_none [OF a] show ?thesis by simp
  qed (use Pair a in \<open>auto
        intro: touched_none [OF vote_touched] touched_none [OF like_touched]
          touched_none [OF share_touched] touched_none [OF view_touched]\<close>)
qed

lemma exec_small_keeps:
  assumes "findById (posts d) j = Some q"
  shows "findById (posts (exec_small d r)) j = None
       \<or> (\<exists>q'. findById (posts (exec_small d r)) j = Some q' \<and> keeps_votes q q')"
proof (cases r)
  case (Pair now req)
  show ?thesis
  proof (cases req)
    case (JobRun w c)
    with Pair job_keeps [OF assms] show ?thesis by simp
  qed (use Pair assms in \<open>auto simp: keeps_votes_refl
        dest: touched_keeps [OF vote_small_touched] touched_keeps [OF like_small_touched]\<close>)
qed

lemma exec_small_none:
  "findById (posts d) j = None \<Longrightarrow> findById (posts (exec_small d r)) j = None"
proof (cases r)
  case (Pair now req)
  assume a: "findById (posts d) j = None"
  show ?thesis
  proof (cases req)
    case (JobRun w c)
    with Pair job_none [OF a] show ?thesis by simp
  qed (use Pair a in \<open>auto
        intro: touched_none [OF vote_small_touched] touched_none [OF like_small_touched]\<close>)
qed

lemma foldl_inv:
  assumes "\<And>d r. store_inv d \<Longrightarrow> store_inv (f d r)"
  shows "store_inv d \<Longrightarrow> store_inv (foldl f d rs)"
  by (induction rs arbitrary: d) (simp_all add: assms)

lemma foldl_none:
  assumes "\<And>d r. findById (posts d) j = None \<Longrightarrow> findById (posts (f d r)) j = None"
  shows "findById (posts d) j = None \<Longrightarrow> findById (posts (foldl f d rs)) j = None"
  by (induction rs arbitrary: d) (simp_all add: assms)

lemma foldl_keeps:
  assumes k: "\<And>d r q. findById (posts d) j = Some q \<Longrightarrow>
       findById (posts (f d r)) j = None
       \<or> (\<exists>q'. findById (posts (f d r)) j = Some q' \<and> keeps_votes q q')"
    and n: "\<And>d r. findById (posts d) j = None \<Longrightarrow> findById (posts (f d r)) j = None"
  shows "findById (posts d) j = Some q \<Longrightarrow>
       findById (posts (foldl f d rs)) j = None
       \<or> (\<exists>q'. findById (posts (foldl f d rs)) j = Some q' \<and> keeps_votes q q')"
proof (induction rs arbitrary: d q)
  case Nil
  then show ?case by (simp add: keeps_votes_refl)
next
  case (Cons r rs)
  from k [OF Cons.prems, of r] show ?case
  proof
    assume "findById (posts (f d r)) j = None"
    then have "findById (posts (foldl f (f d r) rs)) j = None"
      by (rule foldl_none [OF n, rotated]) 
    then show ?thesis by simp
  next
    assume "\<exists>q'. findById (posts (f d r)) j = Some q' \<and> keeps_votes q q'"
    then obtain q' where q': "findById (posts (f d r)) j = Some q'" "keeps_votes q q'" by blast
    from Cons.IH [OF q'(1)] q'(2) show ?thesis
      by (auto intro: keeps_votes_trans)
  qed
qed


lemma vote_success:
  assumes "succeeded (fst (vote now d i k uid))"
  shows "\<exists>p'. findById (posts (snd (vote now d i k uid))) i = Some p' \<and> hasVoted p' uid"
proof -
  from assms obtain p p' where p: "findById (posts d) i = Some p"
    and c: "cast_vote p k uid = Some p'"
    and e: "posts (snd (vote now d i k uid)) = save_post p' (posts d)"
    by (auto simp: vote_def Let_def split: if_splits option.splits)
  from p c have "pid p' = i" by (simp add: cast_vote_pid findById_Some)
  with p e have "findById (posts (snd (vote now d i k uid))) i = Some p'"
    by (simp add: findById_save_post)
  with c show ?thesis by (simp add: hasVoted_cast)
qed

lemma vote_small_success:
  assumes "succeeded (fst (vote_small d i k uid))"
  shows "\<exists>p'. findById (posts (snd (vote_small d i k uid))) i = Some p' \<and> hasVoted p' uid"
proof -
  from assms obtain p p' where p: "findById (posts d) i = Some p"
    and c: "cast_vote p k uid = Some p'"
    and e: "posts (snd (vote_small d i k uid)) = save_post p' (posts d)"
    by (auto simp: vote_small_def Let_def split: if_splits option.splits)
  from p c have "pid p' = i" by (simp add: cast_vote_pid findById_Some)
  with p e have "findById (posts (snd (vote_small d i k uid))) i = Some p'"
    by (simp add: findById_save_post)
  with c show ?thesis by (simp add: hasVoted_cast)
qed

lemma vote_blocked:
  "findById (posts d) i = None \<or> (\<exists>q. findById (posts d) i = Some q \<and> hasVoted q uid)
     \<Longrightarrow> \<not> succeeded (fst (vote now d i k uid))"
  by (auto simp: vote_def)

lemma vote_small_blocked:
  "findById (posts d) i = None \<or> (\<exists>q. findById (posts d) i = Some q \<and> hasVoted q uid)
     \<Longrightarrow> \<not> succeeded (fst (vote_small d i k uid))"
  by (auto simp: vote_small_def)

lemma run_keeps:
  "findById (posts d) j = Some q \<Longrightarrow>
     findById (posts (run d rs)) j = None
     \<or> (\<exists>q'. findById (posts (run d rs)) j = Some q' \<and> keeps_votes q q')"
  unfolding run_def by (rule foldl_keeps [OF exec_keeps exec_none])

lemma run_small_keeps:
  "findById (posts d) j = Some q \<Longrightarrow>
     findById (posts (run_small d rs)) j = None
     \<or> (\<exists>q'. findById (posts (run_small d rs)) j = Some q' \<and> keeps_votes q q')"
  unfolding run_small_def by (rule foldl_keeps [OF exec_small_keeps exec_small_none])

lemma run_inv: "store_inv d \<Longrightarrow> store_inv (run d rs)"
  unfolding run_def by (rule foldl_inv [OF exec_inv])

lemma run_small_inv: "store_inv d \<Longrightarrow> store_inv (run_small d rs)"
  unfolding run_small_def by (rule foldl_inv [OF exec_small_inv])

lemma store_inv_counts:
  assumes "store_inv d"
  shows "list_all (\<lambda>p. totalVotes p = sum_list (map votes (options p))
                      \<and> likesCount p = int (card (set (likes p)))) (posts d)"
  using assms by (auto simp: store_inv_def post_inv_def list_all_iff distinct_card)

lemmas handler_defs = vote_def like_def share_def view_def vote_small_def
  like_small_def cast_vote_def add_vote_def hasVoted_def push_interaction_def add_interests_def
  findById_def findOne_def save_post_def save_user_def
  splice1_def new_post_def poll_def db1_def user_u_def

section \<open>Claims about counters and votes\<close>

text \<open>
  C3. In a store whose posts have \<open>totalVotes\<close> equal to the sum of the option votes and
  \<open>likesCount\<close> equal to the number of identifiers in \<open>likes\<close>, none of them twice, every
  sequence of requests (votes, likes and unlikes among them) leaves every post with
  \<open>totalVotes\<close> equal to the sum of the option votes and \<open>likesCount\<close> equal to the size of
  the set of likes, in both services and after each request of the sequence. A new post
  starts in such a state.
\<close>

theorem counters_invariant:
  assumes "store_inv d"
  shows "list_all (\<lambda>p. totalVotes p = sum_list (map votes (options p))
                      \<and> likesCount p = int (card (set (likes p)))) (posts (run d rs))
       \<and> list_all (\<lambda>p. totalVotes p = sum_list (map votes (options p))
                      \<and> likesCount p = int (card (set (likes p)))) (posts (run_small d rs))
       \<and> store_inv (run d rs) \<and> store_inv (run_small d rs)
       \<and> store_inv (run d (take n rs)) \<and> store_inv (run_small d (take n rs))
       \<and> store_inv \<lparr>posts = [new_post i now cid cname ttl opts tgs], users = us\<rparr>"
proof -
  have a: "store_inv (run d xs)" "store_inv (run_small d xs)" for xs
    using assms by (simp_all add: run_inv run_small_inv)
  have n: "store_inv \<lparr>posts = [new_post i now cid cname ttl opts tgs], users = us\<rparr>"
    by (simp add: store_inv_def post_inv_def new_post_def comp_def)
  from a [of rs] a [of "take n rs"] n store_inv_counts [OF a(1) [of rs]]
    store_inv_counts [OF a(2) [of rs]]
  show ?thesis by blast
qed

theorem counters_invariant_witness:
  "store_inv db1
   \<and> map totalVotes (posts (run db1 [(1, VoteReq 7 0 ''u1''), (2, LikeReq 7 ''u1''),
         (3, LikeReq 7 ''u9''), (4, LikeReq 7 ''u1'')])) = [1]
   \<and> map likes (posts (run db1 [(1, VoteReq 7 0 ''u1''), (2, LikeReq 7 ''u1''),
         (3, LikeReq 7 ''u9''), (4, LikeReq 7 ''u1'')])) = [[''u9'']]
   \<and> map likesCount (posts (run db1 [(1, VoteReq 7 0 ''u1''), (2, LikeReq 7 ''u1''),
         (3, LikeReq 7 ''u9''), (4, LikeReq 7 ''u1'')])) = [1]
   \<and> map likesCount (posts (run_small db1 [(1, VoteReq 7 0 ''u1''), (2, LikeReq 7 ''u1''),
         (3, LikeReq 7 ''u9''), (4, LikeReq 7 ''u1'')])) = [1]"
  using counters_invariant [of db1 "[(1, VoteReq 7 0 ''u1''), (2, LikeReq 7 ''u1''),
         (3, LikeReq 7 ''u9''), (4, LikeReq 7 ''u1'')]" 0 7 100 "''u2''" "''Bob''" "''Tea?''" "[]" "[]" "[]"]
  by (simp add: handler_defs run_def run_small_def store_inv_def post_inv_def Let_def)

text \<open>
  C4. A vote is answered with "Already voted" exactly when the post exists and the
  user's identifier is among the voters of some option of the post, whatever option the
  request names (the larger service first rejects a request without an identifier).
  After a vote of a user on a post has succeeded, no later vote of that user on that
  post succeeds, whatever requests come in between; and no request takes a voter out of
  an option or lowers a vote count: as long as the post exists, every option keeps the
  voters it had, in their place.
\<close>

theorem vote_once:
  "(fst (vote now d i k uid) = Error 400 ''Already voted''
      \<longleftrightarrow> uid \<noteq> [] \<and> (\<exists>p. findById (posts d) i = Some p
                             \<and> (\<exists>opt \<in> set (options p). uid \<in> set (voters opt))))
   \<and> (fst (vote_small d i k uid) = Error 400 ''Already voted''
      \<longleftrightarrow> (\<exists>p. findById (posts d) i = Some p
                 \<and> (\<exists>opt \<in> set (options p). uid \<in> set (voters opt))))
   \<and> (succeeded (fst (vote now d i k uid))
      \<longrightarrow> \<not> succeeded (fst (vote now' (run (snd (vote now d i k uid)) rs) i k' uid)))
   \<and> (succeeded (fst (vote_small d i k uid))
      \<longrightarrow> \<not> succeeded (fst (vote_small (run_small (snd (vote_small d i k uid)) rs) i k' uid)))
   \<and> (findById (posts d) i = Some p
      \<longrightarrow> findById (posts (run d rs)) i = None
          \<or> (\<exists>q. findById (posts (run d rs)) i = Some q \<and> keeps_votes p q))
   \<and> (findById (posts d) i = Some p
      \<longrightarrow> findById (posts (run_small d rs)) i = None
          \<or> (\<exists>q. findById (posts (run_small d rs)) i = Some q \<and> keeps_votes p q))"
proof -
  have a: "fst (vote now d i k uid) = Error 400 ''Already voted''
      \<longleftrightarrow> uid \<noteq> [] \<and> (\<exists>p. findById (posts d) i = Some p
                             \<and> (\<exists>opt \<in> set (options p). uid \<in> set (voters opt)))"
    by (auto simp: vote_def Let_def hasVoted_def list_ex_iff split: option.splits)
  have b: "fst (vote_small d i k uid) = Error 400 ''Already voted''
      \<longleftrightarrow> (\<exists>p. findById (posts d) i = Some p
                 \<and> (\<exists>opt \<in> set (options p). uid \<in> set (voters opt)))"
    by (auto simp: vote_small_def Let_def hasVoted_def list_ex_iff split: option.splits)
  have c: "\<not> succeeded (fst (vote now' (run (snd (vote now d i k uid)) rs) i k' uid))"
    if "succeeded (fst (vote now d i k uid))"
  proof -
    from vote_success [OF that] obtain p' where
      p': "findById (posts (snd (vote now d i k uid))) i = Some p'" "hasVoted p' uid" by blast
    from run_keeps [OF p'(1), of rs] p'(2)
    have "findById (posts (run (snd (vote now d i k uid)) rs)) i = None
        \<or> (\<exists>q. findById (posts (run (snd (vote now d i k uid)) rs)) i = Some q \<and> hasVoted q uid)"
      by (auto intro: hasVoted_keeps)
    then show ?thesis by (rule vote_blocked)
  qed
  have e: "\<not> succeeded (fst (vote_small (run_small (snd (vote_small d i k uid)) rs) i k' uid))"
    if "succeeded (fst (vote_small d i k uid))"
  proof -
    from vote_small_success [OF that] obtain p' where
      p': "findById (posts (snd (vote_small d i k uid))) i = Some p'" "hasVoted p' uid" by blast
    from run_small_keeps [OF p'(1), of rs] p'(2)
    have "findById (posts (run_small (snd (vote_small d i k uid)) rs)) i = None
        \<or> (\<exists>q. findById (posts (run_small (snd (vote_small d i k uid)) rs)) i = Some q
                \<and> hasVoted q uid)"
      by (auto intro: hasVoted_keeps)
    then show ?thesis by (rule vote_small_blocked)
  qed
  from a b c e run_keeps [of d i p rs] run_small_keeps [of d i p rs]
  show ?thesis by blast
qed

theorem vote_once_witness:
  "findById (posts db1) 7 = Some poll
   \<and> succeeded (fst (vote 1 db1 7 0 ''u1''))
   \<and> fst (vote 2 (snd (vote 1 db1 7 0 ''u1'')) 7 1 ''u1'') = Error 400 ''Already voted''
   \<and> succeeded (fst (vote_small db1 7 0 ''u1''))
   \<and> fst (vote_small (snd (vote_small db1 7 0 ''u1'')) 7 1 ''u1'') = Error 400 ''Already voted''"
  using vote_once [of 1 db1 7 0 "''u1''" 2 "[]" 1 poll]
  by (simp add: handler_defs run_def run_small_def Let_def)

section \<open>Facts about the trending job\<close>

lemma findByIdAndUpdate_absent:
  "j \<notin> pid ` set ps \<Longrightarrow> findByIdAndUpdate j sc ps = ps"
  by (induction ps) (auto simp: findByIdAndUpdate_def)

lemma updateLoop_shape:
  assumes "distinct (map pid xs)" "pid ` set pre \<inter> pid ` set xs = {}"
  shows "updateLoop w c xs (pre @ xs)
           = (if list_all (\<lambda>p. w (pid p)) xs then None else Some ''write failed'',
              pre @ map (rescore c) (takeWhile (\<lambda>p. w (pid p)) xs)
                  @ dropWhile (\<lambda>p. w (pid p)) xs)"
  using assms
proof (induction xs arbitrary: pre)
  case Nil
  then show ?case by simp
next
  case (Cons x xs)
  show ?case
  proof (cases "w (pid x)")
    case False
    then show ?thesis by (simp add: Let_def)
  next
    case True
    from Cons.prems have a: "pid x \<notin> pid ` set pre" "pid x \<notin> pid ` set xs" by auto
    have u: "findByIdAndUpdate (pid x) (calculateEngagementScore (c (pid x)) x) (pre @ x # xs)
              = (pre @ [rescore c x]) @ xs"
    proof -
      have "findByIdAndUpdate (pid x) (calculateEngagementScore (c (pid x)) x) (pre @ x # xs)
              = findByIdAndUpdate (pid x) (calculateEngagementScore (c (pid x)) x) pre
                  @ rescore c x
                  # findByIdAndUpdate (pid x) (calculateEngagementScore (c (pid x)) x) xs"
        by (simp add: findByIdAndUpdate_def rescore_def)
      with a show ?thesis by (simp add: findByIdAndUpdate_absent)
    qed
    have d: "distinct (map pid xs)" using Cons.prems by simp
    have e: "pid ` set (pre @ [rescore c x]) \<inter> pid ` set xs = {}"
      using Cons.prems by (auto simp: rescore_def)
    from Cons.IH [OF d e] True u show ?thesis
      by (simp add: Let_def)
  qed
qed

section \<open>Claims about the trending job\<close>

text \<open>
  C8, as the code has it. The loop of the job has no handler for a rejected write. In a
  store with distinct identifiers, the job recomputes and stores both scores of the
  posts that come before the first rejected write in the scan, and leaves that post and
  every post after it as they were; it reports no error exactly when every write is
  accepted, and then every post has both scores recomputed. The job writes no user.
\<close>

theorem job_stops_at_failure:
  assumes "distinct (map pid (posts d))"
  shows "posts (snd (updateTrendingScores write_ok clock d))
           = map (rescore clock) (takeWhile (\<lambda>p. write_ok (pid p)) (posts d))
               @ dropWhile (\<lambda>p. write_ok (pid p)) (posts d)
       \<and> users (snd (updateTrendingScores write_ok clock d)) = users d
       \<and> (fst (updateTrendingScores write_ok clock d) = None
            \<longleftrightarrow> list_all (\<lambda>p. write_ok (pid p)) (posts d))
       \<and> (list_all (\<lambda>p. write_ok (pid p)) (posts d)
            \<longrightarrow> posts (snd (updateTrendingScores write_ok clock d))
                  = map (rescore clock) (posts d))"
proof -
  have "updateLoop write_ok clock (posts d) ([] @ posts d)
           = (if list_all (\<lambda>p. write_ok (pid p)) (posts d) then None else Some ''write failed'',
              [] @ map (rescore clock) (takeWhile (\<lambda>p. write_ok (pid p)) (posts d))
                  @ dropWhile (\<lambda>p. write_ok (pid p)) (posts d))"
    by (rule updateLoop_shape) (use assms in simp_all)
  then have l: "updateLoop write_ok clock (posts d) (posts d)
           = (if list_all (\<lambda>p. write_ok (pid p)) (posts d) then None else Some ''write failed'',
              map (rescore clock) (takeWhile (\<lambda>p. write_ok (pid p)) (posts d))
                  @ dropWhile (\<lambda>p. write_ok (pid p)) (posts d))"
    by simp
  from l have e: "posts (snd (updateTrendingScores write_ok clock d))
           = map (rescore clock) (takeWhile (\<lambda>p. write_ok (pid p)) (posts d))
               @ dropWhile (\<lambda>p. write_ok (pid p)) (posts d)"
    and u: "users (snd (updateTrendingScores write_ok clock d)) = users d"
    and f: "fst (updateTrendingScores write_ok clock d) = None
            \<longleftrightarrow> list_all (\<lambda>p. write_ok (pid p)) (posts d)"
    by (simp_all add: updateTrendingScores_def Let_def)
  have a: "posts (snd (updateTrendingScores write_ok clock d)) = map (rescore clock) (posts d)"
    if "list_all (\<lambda>p. write_ok (pid p)) (posts d)"
  proof -
    from that have tk: "takeWhile (\<lambda>p. write_ok (pid p)) (posts d) = posts d"
      and dr: "dropWhile (\<lambda>p. write_ok (pid p)) (posts d) = []"
      by (simp_all add: list_all_iff)
    show ?thesis by (simp only: e tk dr append_Nil2)
  qed
  from e u f a show ?thesis by blast
qed

theorem job_stops_at_failure_witness:
  "distinct (map pid (posts db0))
   \<and> fst (updateTrendingScores (all_but 2) clock0 db0) = Some ''write failed''
   \<and> map trendingScore (posts (snd (updateTrendingScores (all_but 2) clock0 db0))) = [23, 7, 7]
   \<and> map trendingScore (posts (snd (updateTrendingScores (all_but 9) clock0 db0))) = [23, 23, 23]"
  using job_stops_at_failure [of db0 "all_but 2" clock0] job_stops_at_failure [of db0 "all_but 9" clock0]
  by (simp add: sample_defs all_but_def clock0_def updateTrendingScores_def rescore_def
      findByIdAndUpdate_def calculateEngagementScore_def Let_def)

text \<open>
  C8 as stated fails: when the store rejects the write to the second of three posts and
  accepts every other write, the job ends with the error, and the third post keeps the
  trending score 7 although its recomputed score is 23.
\<close>

theorem job_isolation_counterexample:
  "all_but 2 (pid post_c)
   \<and> fst (updateTrendingScores (all_but 2) clock0 db0) = Some ''write failed''
   \<and> posts (snd (updateTrendingScores (all_but 2) clock0 db0))
        = [post_a\<lparr>engagementScore := 23, trendingScore := 23\<rparr>, post_b, post_c]
   \<and> trendingScore post_c = 7
   \<and> calculateEngagementScore (clock0 (pid post_c)) post_c = 23"
  by (simp add: sample_defs all_but_def clock0_def updateTrendingScores_def
      findByIdAndUpdate_def calculateEngagementScore_def Let_def)

section \<open>Facts about interaction tracking\<close>


lemma findOne_save_user:
  assumes "findOne us uid = Some u" "userId u' = uid"
  shows "findOne (save_user u' us) uid = Some u'"
  using assms by (induction us) (auto simp: findOne_def save_user_def)

lemma others_save_user:
  "userId u' = uid \<Longrightarrow>
     filter (\<lambda>v. userId v \<noteq> uid) (save_user u' us) = filter (\<lambda>v. userId v \<noteq> uid) us"
  by (induction us) (auto simp: save_user_def)

lemma tracked:
  assumes "findOne us uid = Some u" "userId u' = uid"
  shows "findOne (save_user u' us) uid = Some u'
       \<and> filter (\<lambda>v. userId v \<noteq> uid) (save_user u' us) = filter (\<lambda>v. userId v \<noteq> uid) us"
  using assms by (simp add: findOne_save_user others_save_user)















lemma length_sort_trending: "length (sort_trending ps) = length ps"
  by (simp add: sort_trending_def)

lemma set_sort_trending: "set (sort_trending ps) = set ps"
  by (simp add: sort_trending_def)

lemma in_feed_unknown:
  assumes "findOne (users d) uid = None" "findById (posts d) i = Some p"
  shows "in_feed now d uid i"
proof -
  have "cursor_limit (length (posts d)) (sort_trending (posts d)) = sort_trending (posts d)"
    by (simp add: cursor_limit_def length_sort_trending)
  then have "getPersonalizedFeed now d uid (length (posts d)) 0
               = Inr (map (\<lambda>q. (q, None)) (sort_trending (posts d)))"
    using assms(1) by (simp add: getPersonalizedFeed_def trending_page_def)
  moreover from assms(2) have "p \<in> set (sort_trending (posts d))" "pid p = i"
    by (simp_all add: set_sort_trending findById_Some)
  ultimately show ?thesis
    by (force simp: in_feed_def)
qed

lemma find_append_last: "find P xs = None \<Longrightarrow> P x \<Longrightarrow> find P (xs @ [x]) = Some x"
  by (induction xs) (auto split: if_splits)

lemma unseen_new_user:
  assumes "findOne (users d) uid = None"
  shows "seen_by d uid = [] \<and> seen_by (snd (createUser d uid name)) uid = []"
proof -
  have a: "seen_by d uid = []"
    using assms by (simp add: seen_by_def)
  have "seen_by (snd (createUser d uid name)) uid = []"
  proof (cases "uid = [] \<or> name = []")
    case True
    with a show ?thesis by (auto simp: createUser_def)
  next
    case False
    let ?u = "\<lparr>userId = uid, username = name, interactions = [], interests = []\<rparr>"
    from assms have "findOne (users d @ [?u]) uid = Some ?u"
      by (simp add: findOne_def find_append_last)
    with False assms show ?thesis
      by (simp add: createUser_def seen_by_def Let_def)
  qed
  with a show ?thesis by simp
qed

lemma vote_unknown:
  assumes u: "findOne (users d) uid = None" and p: "findById (posts d) i = Some p"
    and n: "uid \<noteq> []" and h: "\<not> hasVoted p uid"
    and k: "0 \<le> k" "k < int (length (options p))"
  shows "\<exists>p'. vote now d i k uid = (OkMsg ''Vote recorded'' p', d\<lparr>posts := save_post p' (posts d)\<rparr>)
            \<and> totalVotes p' = totalVotes p + 1
            \<and> votes (options p' ! nat k) = votes (options p ! nat k) + 1
            \<and> findById (posts (snd (vote now d i k uid))) i = Some p'"
proof -
  let ?p = "p\<lparr>options := (options p)[nat k := add_vote uid (options p ! nat k)],
              totalVotes := totalVotes p + 1\<rparr>"
  from k have c: "cast_vote p k uid = Some ?p" by (simp add: cast_vote_def)
  with u p n h have v: "vote now d i k uid
      = (OkMsg ''Vote recorded'' ?p, d\<lparr>posts := save_post ?p (posts d)\<rparr>)"
    by (simp add: vote_def Let_def)
  from p have "pid ?p = i" by (simp add: findById_Some)
  with p v have f: "findById (posts (snd (vote now d i k uid))) i = Some ?p"
    by (simp add: findById_save_post)
  from k have "nat k < length (options p)" by simp
  then have "votes (options ?p ! nat k) = votes (options p ! nat k) + 1"
    by (simp add: add_vote_def)
  with v f show ?thesis by auto
qed

lemma share_unknown:
  assumes u: "findOne (users d) uid = None" and p: "findById (posts d) i = Some p"
  shows "share now d i uid
           = (OkMsg ''Share recorded'' (p\<lparr>shares := shares p + 1\<rparr>),
              d\<lparr>posts := save_post (p\<lparr>shares := shares p + 1\<rparr>) (posts d)\<rparr>)"
    and "findById (posts (snd (share now d i uid))) i = Some (p\<lparr>shares := shares p + 1\<rparr>)"
proof -
  show v: "share now d i uid
           = (OkMsg ''Share recorded'' (p\<lparr>shares := shares p + 1\<rparr>),
              d\<lparr>posts := save_post (p\<lparr>shares := shares p + 1\<rparr>) (posts d)\<rparr>)"
    using u p by (simp add: share_def Let_def)
  from p have "pid (p\<lparr>shares := shares p + 1\<rparr>) = i" by (simp add: findById_Some)
  with p v show "findById (posts (snd (share now d i uid))) i = Some (p\<lparr>shares := shares p + 1\<rparr>)"
    by (simp add: findById_save_post)
qed

lemma view_unknown:
  assumes u: "findOne (users d) uid = None" and p: "findById (posts d) i = Some p"
  shows "view now d i uid
           = (OkPost (p\<lparr>views := views p + 1\<rparr>),
              d\<lparr>posts := save_post (p\<lparr>views := views p + 1\<rparr>) (posts d)\<rparr>)"
    and "findById (posts (snd (view now d i uid))) i = Some (p\<lparr>views := views p + 1\<rparr>)"
proof -
  show v: "view now d i uid
           = (OkPost (p\<lparr>views := views p + 1\<rparr>),
              d\<lparr>posts := save_post (p\<lparr>views := views p + 1\<rparr>) (posts d)\<rparr>)"
    using u p by (simp add: view_def Let_def)
  from p have "pid (p\<lparr>views := views p + 1\<rparr>) = i" by (simp add: findById_Some)
  with p v show "findById (posts (snd (view now d i uid))) i = Some (p\<lparr>views := views p + 1\<rparr>)"
    by (simp add: findById_save_post)
qed


section \<open>Claims about interaction tracking\<close>




text \<open>
  C10. In the larger service, for an identifier without a user record and a post that
  exists: a vote that passes the checks (an identifier, not voted yet, an option of the
  post), a share and a view change the post's counters and report success, and leave
  every user as it was: no interaction and no interest is written. The post stays
  eligible for that identifier: it is in the identifier's feed over the whole store
  (the trending fallback), and the feed's \<^verbatim>\<open>$match\<close> stage excludes no post for the
  identifier, now and after a record for the identifier is created.
\<close>

theorem unknown_user_untracked:
  assumes "findOne (users d) uid = None" "findById (posts d) i = Some p"
  shows "(uid \<noteq> [] \<and> \<not> hasVoted p uid \<and> 0 \<le> k \<and> k < int (length (options p)) \<longrightarrow>
            (\<exists>p'. vote now d i k uid
                     = (OkMsg ''Vote recorded'' p', d\<lparr>posts := save_post p' (posts d)\<rparr>)
                 \<and> totalVotes p' = totalVotes p + 1
                 \<and> votes (options p' ! nat k) = votes (options p ! nat k) + 1
                 \<and> findById (posts (snd (vote now d i k uid))) i = Some p')
          \<and> users (snd (vote now d i k uid)) = users d
          \<and> in_feed now' (snd (vote now d i k uid)) uid i
          \<and> seen_by (snd (vote now d i k uid)) uid = []
          \<and> seen_by (snd (createUser (snd (vote now d i k uid)) uid name)) uid = [])
       \<and> share now d i uid
           = (OkMsg ''Share recorded'' (p\<lparr>shares := shares p + 1\<rparr>),
              d\<lparr>posts := save_post (p\<lparr>shares := shares p + 1\<rparr>) (posts d)\<rparr>)
       \<and> users (snd (share now d i uid)) = users d
       \<and> in_feed now' (snd (share now d i uid)) uid i
       \<and> seen_by (snd (share now d i uid)) uid = []
       \<and> seen_by (snd (createUser (snd (share now d i uid)) uid name)) uid = []
       \<and> view now d i uid
           = (OkPost (p\<lparr>views := views p + 1\<rparr>),
              d\<lparr>posts := save_post (p\<lparr>views := views p + 1\<rparr>) (posts d)\<rparr>)
       \<and> users (snd (view now d i uid)) = users d
       \<and> in_feed now' (snd (view now d i uid)) uid i
       \<and> seen_by (snd (view now d i uid)) uid = []
       \<and> seen_by (snd (createUser (snd (view now d i uid)) uid name)) uid = []"
proof -
  have V: "(\<exists>p'. vote now d i k uid
                     = (OkMsg ''Vote recorded'' p', d\<lparr>posts := save_post p' (posts d)\<rparr>)
                 \<and> totalVotes p' = totalVotes p + 1
                 \<and> votes (options p' ! nat k) = votes (options p ! nat k) + 1
                 \<and> findById (posts (snd (vote now d i k uid))) i = Some p')
          \<and> users (snd (vote now d i k uid)) = users d
          \<and> in_feed now' (snd (vote now d i k uid)) uid i
          \<and> seen_by (snd (vote now d i k uid)) uid = []
          \<and> seen_by (snd (createUser (snd (vote now d i k uid)) uid name)) uid = []"
    if c: "uid \<noteq> [] \<and> \<not> hasVoted p uid \<and> 0 \<le> k \<and> k < int (length (options p))"
  proof -
    from c vote_unknown [OF assms, of k now] obtain p' where
      v: "vote now d i k uid = (OkMsg ''Vote recorded'' p', d\<lparr>posts := save_post p' (posts d)\<rparr>)"
      and t: "totalVotes p' = totalVotes p + 1"
        "votes (options p' ! nat k) = votes (options p ! nat k) + 1"
      and f: "findById (posts (snd (vote now d i k uid))) i = Some p'"
      by blast
    from v have us: "users (snd (vote now d i k uid)) = users d" by simp
    with assms(1) have un: "findOne (users (snd (vote now d i k uid))) uid = None" by simp
    from v t f us in_feed_unknown [OF un f] unseen_new_user [OF un]
    show ?thesis by blast
  qed
  note s = share_unknown [OF assms, of now]
  from s(1) have su: "users (snd (share now d i uid)) = users d" by simp
  with assms(1) have sn: "findOne (users (snd (share now d i uid))) uid = None" by simp
  note w = view_unknown [OF assms, of now]
  from w(1) have wu: "users (snd (view now d i uid)) = users d" by simp
  with assms(1) have wn: "findOne (users (snd (view now d i uid))) uid = None" by simp
  from V s(1) su in_feed_unknown [OF sn s(2)] unseen_new_user [OF sn]
    w(1) wu in_feed_unknown [OF wn w(2)] unseen_new_user [OF wn]
  show ?thesis by blast
qed

theorem unknown_user_untracked_witness:
  "findOne (users db1) ''ghost'' = None \<and> findById (posts db1) 7 = Some poll
   \<and> ''ghost'' \<noteq> [] \<and> \<not> hasVoted poll ''ghost'' \<and> (0::int) \<le> 1
   \<and> 1 < int (length (options poll))
   \<and> succeeded (fst (vote 9 db1 7 1 ''ghost''))
   \<and> users (snd (vote 9 db1 7 1 ''ghost'')) = users db1
   \<and> map totalVotes (posts (snd (vote 9 db1 7 1 ''ghost''))) = [1]
   \<and> map shares (posts (snd (share 9 db1 7 ''ghost''))) = [1]
   \<and> map views (posts (snd (view 9 db1 7 ''ghost''))) = [1]
   \<and> in_feed 20 (snd (vote 9 db1 7 1 ''ghost'')) ''ghost'' 7
   \<and> seen_by (snd (createUser (snd (vote 9 db1 7 1 ''ghost'')) ''ghost'' ''Guest'')) ''ghost''
        = []"
  using unknown_user_untracked [of db1 "''ghost''" 7 poll 1 9 20 "''Guest''"]
  by (simp add: handler_defs Let_def in_feed_def feed_defs createUser_def seen_by_def)

end
